theory Spec2Isabelle
  imports Main "HOL-Library.Char_ord" "HOL-Library.List_Lexorder" "HOL-Library.Multiset"
begin

section \<open>Node model\<close>

text \<open>
  The tree index of \<^verbatim>\<open>src/lib/parser/tree.ts\<close>. A JavaScript \<^verbatim>\<open>number\<close> holding an offset
  or a length is an \<open>int\<close>; a string is a \<open>string\<close>; a value that may be \<^verbatim>\<open>undefined\<close> is an
  \<open>option\<close>. Reading a property of \<^verbatim>\<open>undefined\<close> raises a \<^verbatim>\<open>TypeError\<close>, an error value here.
  Recursion over the node map follows identifiers, so it carries fuel: \<open>OutOfFuel\<close> is the
  recursion that did not come back within the given depth.
\<close>

datatype error = TypeError | OverlappingEdit | OutOfFuel

datatype NodeType = TObject | TArray | TString | TNumber | TBoolean | TNull

text \<open>
  Modelled from the spec: the identifier scheme (module \<^verbatim>\<open>@/lib/idgen\<close>) is not among the
  sources. The spec makes an identifier the serialised logical path of the node, with path
  and identifier mutual inverses and the root the empty path; an identifier is represented
  here by that path.
\<close>

type_synonym node_id = "string list"

definition rootMarker :: node_id where
  "rootMarker = []"

text \<open>
  Modelled from the spec: the \<^verbatim>\<open>Node\<close> interface and the helpers of module \<^verbatim>\<open>./node\<close>
  (\<^verbatim>\<open>isIterable\<close>, \<^verbatim>\<open>hasChildren\<close>, \<^verbatim>\<open>isRoot\<close>, \<^verbatim>\<open>getChildrenKeys\<close>, \<^verbatim>\<open>getChildId\<close>,
  \<^verbatim>\<open>getRawValue\<close>, \<^verbatim>\<open>computeAndSetBoundLength\<close>) are not among the sources. The fields
  \<open>nid\<close>, \<open>ntype\<close> and \<open>nlength\<close> are the source's \<^verbatim>\<open>id\<close>, \<^verbatim>\<open>type\<close> and \<^verbatim>\<open>length\<close>;
  \<open>rawValue\<close> is the raw token of a leaf, absent when the source has none.
  \<open>computeAndSetBoundLength\<close> sets the bound length so that the bound span ends where the
  node's own span ends, the spec's \<open>boundOffset + boundLength = offset + length\<close>.
\<close>

record Node =
  nid :: node_id
  ntype :: NodeType
  rawValue :: "string option"
  childrenKeys :: "string list"
  offset :: int
  nlength :: int
  boundOffset :: int
  boundLength :: int

definition isIterable :: "Node \<Rightarrow> bool" where
  "isIterable node = (ntype node = TObject \<or> ntype node = TArray)"

definition getChildrenKeys :: "Node \<Rightarrow> string list" where
  "getChildrenKeys node = childrenKeys node"

definition hasChildren :: "Node \<Rightarrow> bool" where
  "hasChildren node = (childrenKeys node \<noteq> [])"

definition isRoot :: "Node \<Rightarrow> bool" where
  "isRoot node = (nid node = rootMarker)"

definition getChildId :: "Node \<Rightarrow> string \<Rightarrow> node_id" where
  "getChildId node key = nid node @ [key]"

definition getRawValue :: "Node \<Rightarrow> string option" where
  "getRawValue node = rawValue node"

definition computeAndSetBoundLength :: "Node \<Rightarrow> Node" where
  "computeAndSetBoundLength node =
     node\<lparr>boundLength := offset node + nlength node - boundOffset node\<rparr>"

section \<open>Tree\<close>

text \<open>
  \<open>nodeMap\<close> is the store of the node objects: a node object is reached through the
  identifier it is stored under, and an assignment to a field of a node is an update of the
  store at that identifier. \<open>treeText\<close> is the source's \<^verbatim>\<open>text\<close>. A \<^verbatim>\<open>ContextError\<close> is kept
  as its message.
\<close>

type_synonym ContextError = string

type_synonym store = "node_id \<rightharpoonup> Node"

record Tree =
  nodeMap :: store
  treeText :: string
  nestNodeMap :: "store option"
  errors :: "ContextError list option"

definition node :: "Tree \<Rightarrow> node_id \<Rightarrow> Node option" where
  "node t i = nodeMap t i"

definition root :: "Tree \<Rightarrow> Node option" where
  "root t = node t rootMarker"

definition hasError :: "Tree \<Rightarrow> bool" where
  "hasError t = (case errors t of None \<Rightarrow> False | Some es \<Rightarrow> es \<noteq> [])"

definition valid :: "Tree \<Rightarrow> bool" where
  "valid t = (root t \<noteq> None \<and> \<not> hasError t)"

definition getChild :: "store \<Rightarrow> Node \<Rightarrow> string \<Rightarrow> Node option" where
  "getChild m nd key = m (getChildId nd key)"

definition isGraphNode :: "Node \<Rightarrow> bool" where
  "isGraphNode nd = (isRoot nd \<or> hasChildren nd)"

section \<open>Offset lookup\<close>

datatype PointType = TypeNode | TypeKey | TypeValue

definition inBound :: "int \<Rightarrow> Node \<Rightarrow> bool" where
  "inBound off nd = (boundOffset nd < off \<and> off \<le> boundOffset nd + boundLength nd)"

text \<open>
  The \<^verbatim>\<open>while\<close> loop of \<^verbatim>\<open>doFind\<close>. \<open>rec\<close> is the recursive call of \<^verbatim>\<open>doFind\<close> on the child.
  A child that the map does not hold is \<^verbatim>\<open>undefined\<close>, and \<^verbatim>\<open>inBound(child)\<close> then raises;
  so does a key read outside \<^verbatim>\<open>keys\<close>, which \<^verbatim>\<open>doFind\<close> never does.
\<close>

function bsearch ::
  "(Node \<Rightarrow> error + Node option) \<Rightarrow> store \<Rightarrow> int \<Rightarrow> Node \<Rightarrow> string list \<Rightarrow> int \<Rightarrow> int
     \<Rightarrow> error + Node option" where
  "bsearch rec m off nd keys left right =
     (if left \<le> right then
        (let mid = (left + right) div 2 in
         if mid < 0 \<or> int (length keys) \<le> mid then Inl TypeError
         else
           (case getChild m nd (keys ! nat mid) of
              None \<Rightarrow> Inl TypeError
            | Some child \<Rightarrow>
                if inBound off child then
                  (case rec child of
                     Inl e \<Rightarrow> Inl e
                   | Inr None \<Rightarrow> Inr (Some child)
                   | Inr (Some item) \<Rightarrow> Inr (Some item))
                else if boundOffset child + boundLength child < off
                  then bsearch rec m off nd keys (mid + 1) right
                  else bsearch rec m off nd keys left (mid - 1)))
      else Inr (Some nd))"
  by pat_completeness auto
termination
  by (relation "measure (\<lambda>(rec, m, off, nd, keys, left, right). nat (right - left + 1))") auto

declare bsearch.simps [simp del]

primrec doFind :: "nat \<Rightarrow> store \<Rightarrow> int \<Rightarrow> Node \<Rightarrow> error + Node option" where
  "doFind 0 m off nd = Inl OutOfFuel"
| "doFind (Suc fuel) m off nd =
     (if \<not> inBound off nd then Inr None
      else
        (let keys = getChildrenKeys nd
         in bsearch (doFind fuel m off) m off nd keys 0 (int (length keys) - 1)))"

definition findNodeAtOffset :: "nat \<Rightarrow> Tree \<Rightarrow> int \<Rightarrow> error + (Node \<times> PointType) option" where
  "findNodeAtOffset fuel t off =
     (if \<not> valid t then Inr None
      else
        (case root t of
           None \<Rightarrow> Inl TypeError
         | Some r \<Rightarrow>
             (case doFind fuel (nodeMap t) off r of
                Inl e \<Rightarrow> Inl e
              | Inr None \<Rightarrow> Inr None
              | Inr (Some nd) \<Rightarrow>
                  if isGraphNode nd then Inr (Some (nd, TypeNode))
                  else Inr (Some (nd,
                         if offset nd < off \<and> off \<le> offset nd + nlength nd
                         then TypeValue else TypeKey)))))"

section \<open>Stringifier\<close>

datatype SortOrder = Asc | Desc

text \<open>
  The options read by \<^verbatim>\<open>stringifyNode\<close>: \<open>pure\<close> and \<open>format\<close> are tested for truth only
  (\<^verbatim>\<open>!options.pure\<close>, \<^verbatim>\<open>options?.format === true\<close>), \<open>sort_opt\<close> is the source's \<^verbatim>\<open>sort\<close>,
  and an absent or zero \<open>tabWidth\<close> is 2 (\<^verbatim>\<open>options.tabWidth || 2\<close>).
\<close>

record StringifyOptions =
  pure :: bool
  format :: bool
  sort_opt :: "SortOrder option"
  tabWidth :: "nat option"

definition newline :: string where
  "newline = [CHR 0x0A]"

definition dquote :: string where
  "dquote = [CHR 0x22]"

definition effectiveTabWidth :: "StringifyOptions \<Rightarrow> nat" where
  "effectiveTabWidth opts = (case tabWidth opts of None \<Rightarrow> 2 | Some w \<Rightarrow> if w = 0 then 2 else w)"

text \<open>\<^verbatim>\<open>getGenTabsFn(tabWidth)(level)\<close>: the cache holds, at index \<open>i\<close>, \<open>i\<close> copies of the tab.\<close>

definition genTabs :: "nat \<Rightarrow> nat \<Rightarrow> string" where
  "genTabs w level = concat (replicate level (replicate w (CHR '' '')))"

text \<open>An assignment to fields of the node object stored at \<open>ref\<close>.\<close>

definition assign :: "store \<Rightarrow> node_id \<Rightarrow> (Node \<Rightarrow> Node) \<Rightarrow> store" where
  "assign m ref f = (case m ref of None \<Rightarrow> m | Some nd \<Rightarrow> m(ref \<mapsto> f nd))"

text \<open>
  The \<^verbatim>\<open>for\<close> loop of \<^verbatim>\<open>stringifyNode\<close> over the keys still to emit; \<open>s\<close> is \<^verbatim>\<open>stringified\<close>
  so far and \<open>rec\<close> the recursive call on the child, which is the object stored under
  \<^verbatim>\<open>getChildId(node, key)\<close>.
\<close>

fun stringifyChildren ::
  "(store \<Rightarrow> node_id \<Rightarrow> nat \<Rightarrow> int \<Rightarrow> int \<Rightarrow> error + string \<times> store) \<Rightarrow> StringifyOptions
     \<Rightarrow> Node \<Rightarrow> nat \<Rightarrow> int \<Rightarrow> string list \<Rightarrow> string \<Rightarrow> store \<Rightarrow> error + string \<times> store" where
  "stringifyChildren rec opts nd indentLevel off [] s m = Inr (s, m)"
| "stringifyChildren rec opts nd indentLevel off (key # rest) s m =
     (let isObject = (ntype nd = TObject);
          s1 = (if format opts then s @ newline @ genTabs (effectiveTabWidth opts) (indentLevel + 1)
                else s);
          childBoundOffset = off + int (length s1);
          s2 = (if isObject
                then s1 @ dquote @ key @ dquote @ '':'' @ (if format opts then '' '' else [])
                else s1);
          childOffset = off + int (length s2)
      in case rec m (getChildId nd key) (indentLevel + 1) childOffset childBoundOffset of
           Inl e \<Rightarrow> Inl e
         | Inr (cs, m') \<Rightarrow>
             (let s3 = s2 @ cs;
                  s4 = (if rest \<noteq> [] then s3 @ '',''
                        else if format opts
                          then s3 @ newline @ genTabs (effectiveTabWidth opts) indentLevel
                          else s3)
              in stringifyChildren rec opts nd indentLevel off rest s4 m'))"

text \<open>
  Modelled from the spec: \<^verbatim>\<open>getChildrenKeys\<close> of module \<^verbatim>\<open>./node\<close> is not among the sources.
  The spec gives the child keys of a node as its sequence \<open>childrenKeys\<close>, which is what a
  reader of the keys gets (\<open>getChildrenKeys\<close> above); it does not say whether the array
  handed out is the one the node holds or a new one. That is the parameter \<open>KeysArray\<close> of
  the stringifier and of the passes that call it.
\<close>

datatype KeysArray = StoredArray | FreshArray

text \<open>
  Lines 209 to 217 of \<^verbatim>\<open>stringifyNode\<close>. \<^verbatim>\<open>keys.sort()\<close> and \<^verbatim>\<open>keys.sort().reverse()\<close> sort, in
  place, the array that \<^verbatim>\<open>getChildrenKeys(node)\<close> handed out. \<open>emittedKeys\<close> is that array
  after these lines, the keys the loop then walks. \<open>sortStored\<close> is what the lines have done
  to the store: the node holds the sorted keys when the array is its own.
\<close>

definition emittedKeys :: "StringifyOptions \<Rightarrow> Node \<Rightarrow> string list" where
  "emittedKeys opts nd =
     (let keys = getChildrenKeys nd
      in if ntype nd = TObject
         then (case sort_opt opts of
                 Some Asc \<Rightarrow> sort keys
               | Some Desc \<Rightarrow> rev (sort keys)
               | None \<Rightarrow> keys)
         else keys)"

definition sortStored :: "KeysArray \<Rightarrow> StringifyOptions \<Rightarrow> store \<Rightarrow> node_id \<Rightarrow> store" where
  "sortStored ka opts m ref =
     (case ka of
        StoredArray \<Rightarrow> assign m ref (\<lambda>n. n\<lparr>childrenKeys := emittedKeys opts n\<rparr>)
      | FreshArray \<Rightarrow> m)"

primrec stringifyNode ::
  "KeysArray \<Rightarrow> nat \<Rightarrow> StringifyOptions \<Rightarrow> store \<Rightarrow> node_id \<Rightarrow> nat \<Rightarrow> int \<Rightarrow> int \<Rightarrow> error + string \<times> store" where
  "stringifyNode ka 0 opts m ref indentLevel off boff = Inl OutOfFuel"
| "stringifyNode ka (Suc fuel) opts m ref indentLevel off boff =
     (case m ref of
        None \<Rightarrow> Inl TypeError
      | Some nd \<Rightarrow>
          if \<not> isIterable nd then
            (let stringified = (case getRawValue nd of None \<Rightarrow> [] | Some v \<Rightarrow> v)
             in Inr (stringified,
                  if pure opts then m
                  else assign m ref (\<lambda>n. computeAndSetBoundLength
                         (n\<lparr>nlength := int (length stringified), offset := off, boundOffset := boff\<rparr>))))
          else
            (let m1 = sortStored ka opts
                        (if pure opts then m
                         else assign m ref (\<lambda>n. n\<lparr>boundOffset := boff, offset := off\<rparr>)) ref
             in case stringifyChildren (stringifyNode ka fuel opts) opts nd indentLevel off
                       (emittedKeys opts nd) (if ntype nd = TObject then ''{'' else ''['') m1 of
                  Inl e \<Rightarrow> Inl e
                | Inr (s, m2) \<Rightarrow>
                    (let stringified = s @ (if ntype nd = TObject then ''}'' else '']'')
                     in Inr (stringified,
                          if pure opts then m2
                          else assign m2 ref (\<lambda>n. computeAndSetBoundLength
                                 (n\<lparr>nlength := int (length stringified)\<rparr>))))))"

definition stringify :: "KeysArray \<Rightarrow> nat \<Rightarrow> StringifyOptions \<Rightarrow> Tree \<Rightarrow> error + string \<times> Tree" where
  "stringify ka fuel opts t =
     (case stringifyNode ka fuel opts (nodeMap t) rootMarker 0 0 0 of
        Inl e \<Rightarrow> Inl e
      | Inr (s, m') \<Rightarrow>
          Inr (s, t\<lparr>nodeMap := assign m' rootMarker (\<lambda>n. n\<lparr>nlength := int (length s)\<rparr>),
                    treeText := s\<rparr>))"

section \<open>Patch engine\<close>

record Edit =
  e_offset :: int
  e_length :: int
  content :: string

text \<open>
  Modelled from the spec: \<^verbatim>\<open>jsonc.applyEdits\<close> belongs to the library \<^verbatim>\<open>jsonc-parser\<close>, not
  to the sources. The spec has the recorded edits applied to the original text in one pass,
  correct for a batch of non-overlapping replacements: the edits are ordered by offset, then
  length, and applied from the last to the first, each replacing
  \<^verbatim>\<open>text.substring(offset, offset + length)\<close>; an edit reaching into the one after it is an
  error.
\<close>

definition applyEdit :: "string \<Rightarrow> Edit \<Rightarrow> string" where
  "applyEdit txt e =
     take (nat (e_offset e)) txt @ content e @ drop (nat (e_offset e + e_length e)) txt"

fun applyEditsFrom :: "string \<Rightarrow> int \<Rightarrow> Edit list \<Rightarrow> error + string" where
  "applyEditsFrom txt lastModifiedOffset [] = Inr txt"
| "applyEditsFrom txt lastModifiedOffset (e # es) =
     (if e_offset e + e_length e \<le> lastModifiedOffset
      then applyEditsFrom (applyEdit txt e) (e_offset e) es
      else Inl OverlappingEdit)"

fun insertEdit :: "Edit \<Rightarrow> Edit list \<Rightarrow> Edit list" where
  "insertEdit e [] = [e]"
| "insertEdit e (x # xs) =
     (if e_offset e < e_offset x \<or> (e_offset e = e_offset x \<and> e_length e \<le> e_length x)
      then e # x # xs else x # insertEdit e xs)"

definition sortEdits :: "Edit list \<Rightarrow> Edit list" where
  "sortEdits es = foldr insertEdit es []"

definition applyEdits :: "string \<Rightarrow> Edit list \<Rightarrow> error + string" where
  "applyEdits txt edits = applyEditsFrom txt (int (length txt)) (rev (sortEdits edits))"

text \<open>\<^verbatim>\<open>String.prototype.trim\<close>, on the white space and line terminators below U+0100.\<close>

definition isWhiteSpace :: "char \<Rightarrow> bool" where
  "isWhiteSpace c = (c \<in> set [CHR 0x09, CHR 0x0A, CHR 0x0B, CHR 0x0C, CHR 0x0D, CHR 0x20, CHR 0xA0])"

definition trim :: "string \<Rightarrow> string" where
  "trim s = rev (dropWhile isWhiteSpace (rev (dropWhile isWhiteSpace s)))"

definition isNest :: "store option \<Rightarrow> Node \<Rightarrow> bool" where
  "isNest nest nd = (case nest of None \<Rightarrow> False | Some nm \<Rightarrow> nm (nid nd) \<noteq> None)"

text \<open>
  \<^verbatim>\<open>fixOffset\<close> with the variables it closes over, \<^verbatim>\<open>acc\<close> and \<^verbatim>\<open>edits\<close>, passed through.
  \<open>fixChildren\<close> is \<^verbatim>\<open>mapChildren(node, fixOffset)\<close>.
\<close>

type_synonym fixState = "store \<times> int \<times> Edit list"

fun fixChildren ::
  "(fixState \<Rightarrow> node_id \<Rightarrow> error + fixState) \<Rightarrow> Node \<Rightarrow> string list \<Rightarrow> fixState
     \<Rightarrow> error + fixState" where
  "fixChildren rec nd [] st = Inr st"
| "fixChildren rec nd (key # rest) st =
     (case rec st (getChildId nd key) of
        Inl e \<Rightarrow> Inl e
      | Inr st' \<Rightarrow> fixChildren rec nd rest st')"

primrec fixOffset ::
  "KeysArray \<Rightarrow> nat \<Rightarrow> StringifyOptions \<Rightarrow> store option \<Rightarrow> fixState \<Rightarrow> node_id \<Rightarrow> error + fixState" where
  "fixOffset ka 0 opts nest st ref = Inl OutOfFuel"
| "fixOffset ka (Suc fuel) opts nest st ref =
     (case st of (m, acc, edits) \<Rightarrow>
        (case m ref of
           None \<Rightarrow> Inl TypeError
         | Some nd \<Rightarrow>
             if isNest nest nd then
               (case stringifyNode ka fuel opts m ref 0 (offset nd + acc) (boundOffset nd + acc) of
                  Inl e \<Rightarrow> Inl e
                | Inr (c, m') \<Rightarrow>
                    Inr (m', acc + (int (length c) - nlength nd),
                         edits @ [\<lparr>e_offset = offset nd, e_length = nlength nd, content = c\<rparr>]))
             else
               (let m1 = assign m ref
                           (\<lambda>n. n\<lparr>offset := offset n + acc, boundOffset := boundOffset n + acc\<rparr>)
                in case fixChildren (fixOffset ka fuel opts nest) nd (getChildrenKeys nd)
                          (m1, acc, edits) of
                     Inl e \<Rightarrow> Inl e
                   | Inr (m2, acc2, edits2) \<Rightarrow>
                       Inr (assign m2 ref
                              (\<lambda>n. n\<lparr>nlength := nlength n + (acc2 - acc),
                                      boundLength := boundLength n + (acc2 - acc)\<rparr>),
                            acc2, edits2))))"

definition stringifyNestNodes :: "KeysArray \<Rightarrow> nat \<Rightarrow> StringifyOptions \<Rightarrow> Tree \<Rightarrow> error + Tree" where
  "stringifyNestNodes ka fuel opts t =
     (case fixOffset ka fuel opts (nestNodeMap t) (nodeMap t, 0, []) rootMarker of
        Inl e \<Rightarrow> Inl e
      | Inr (m', acc, edits) \<Rightarrow>
          (case applyEdits (treeText t) edits of
             Inl e \<Rightarrow> Inl e
           | Inr txt \<Rightarrow> Inr (t\<lparr>nodeMap := m', treeText := trim txt\<rparr>)))"

section \<open>Equality\<close>

text \<open>\<^verbatim>\<open>union\<close> of lodash: the values of both arrays, each once, in the order of first occurrence.\<close>

definition union_keys :: "string list \<Rightarrow> string list \<Rightarrow> string list" where
  "union_keys xs ys = rev (remdups (rev (xs @ ys)))"

fun eqChildren ::
  "(Node \<Rightarrow> Node \<Rightarrow> error + bool) \<Rightarrow> store \<Rightarrow> store \<Rightarrow> Node \<Rightarrow> Node \<Rightarrow> string list
     \<Rightarrow> error + bool" where
  "eqChildren rec m1 m2 node1 node2 [] = Inr True"
| "eqChildren rec m1 m2 node1 node2 (key # rest) =
     (case getChild m1 node1 key of
        None \<Rightarrow> Inr False
      | Some child1 \<Rightarrow>
          (case getChild m2 node2 key of
             None \<Rightarrow> Inr False
           | Some child2 \<Rightarrow>
               (case rec child1 child2 of
                  Inl e \<Rightarrow> Inl e
                | Inr b \<Rightarrow> if \<not> b then Inr False
                           else eqChildren rec m1 m2 node1 node2 rest)))"

primrec doIsEquals :: "nat \<Rightarrow> store \<Rightarrow> store \<Rightarrow> Node \<Rightarrow> Node \<Rightarrow> error + bool" where
  "doIsEquals 0 m1 m2 node1 node2 = Inl OutOfFuel"
| "doIsEquals (Suc fuel) m1 m2 node1 node2 =
     (if ntype node1 \<noteq> ntype node2 then Inr False
      else
        (let keys = union_keys (getChildrenKeys node1) (getChildrenKeys node2)
         in if length keys = 0 then Inr (getRawValue node1 = getRawValue node2)
            else eqChildren (doIsEquals fuel m1 m2) m1 m2 node1 node2 keys))"

definition isEquals :: "nat \<Rightarrow> Tree \<Rightarrow> Tree \<Rightarrow> error + bool" where
  "isEquals fuel tree1 tree2 =
     (case root tree1 of
        None \<Rightarrow> Inl TypeError
      | Some r1 \<Rightarrow>
          (case root tree2 of
             None \<Rightarrow> Inl TypeError
           | Some r2 \<Rightarrow> doIsEquals fuel (nodeMap tree1) (nodeMap tree2) r1 r2))"

section \<open>Path lookup\<close>

text \<open>
  Modelled from the spec: \<^verbatim>\<open>Tree.findNodeByPath\<close> is called by the sources but its definition
  is not among them. The spec parses the path into segments with a JSON-path-like grammar
  (dot-separated keys, bracket-indexed array positions, bracket-quoted keys, an optional
  leading \<^verbatim>\<open>$\<close>, the empty string being the root), then walks from the root with \<open>getChild\<close>
  per segment, and gives no result as soon as a segment is missing, an index segment meets a
  node that is not an array, a key segment meets a node that is not an object, or the path
  does not parse. An array holds its children under the decimal index.
\<close>

datatype Segment = Key string | Index nat

definition isKeyChar :: "char \<Rightarrow> bool" where
  "isKeyChar c = (c \<noteq> CHR ''.'' \<and> c \<noteq> CHR ''['' \<and> c \<noteq> CHR '']'')"

definition isDigit :: "char \<Rightarrow> bool" where
  "isDigit c = (CHR ''0'' \<le> c \<and> c \<le> CHR ''9'')"

definition digitsToNat :: "string \<Rightarrow> nat" where
  "digitsToNat ds = foldl (\<lambda>acc c. 10 * acc + (of_char c - 48)) 0 ds"

function showNat :: "nat \<Rightarrow> string" where
  "showNat n = (if n < 10 then [char_of (48 + n)] else showNat (n div 10) @ [char_of (48 + n mod 10)])"
  by pat_completeness auto
termination
  by (relation "measure id") auto

declare showNat.simps [simp del]

function parseSegs :: "string \<Rightarrow> Segment list option" where
  "parseSegs [] = Some []"
| "parseSegs (c # cs) =
     (if c = CHR ''.'' then
        (if takeWhile isKeyChar cs = [] then None
         else map_option (Cons (Key (takeWhile isKeyChar cs))) (parseSegs (dropWhile isKeyChar cs)))
      else if c = CHR ''['' then
        (if cs \<noteq> [] \<and> hd cs = CHR 0x22 then
           (case dropWhile (\<lambda>x. x \<noteq> CHR 0x22) (tl cs) of
              q # b # rest \<Rightarrow>
                if b = CHR '']''
                then map_option (Cons (Key (takeWhile (\<lambda>x. x \<noteq> CHR 0x22) (tl cs)))) (parseSegs rest)
                else None
            | _ \<Rightarrow> None)
         else
           (if takeWhile isDigit cs = [] then None
            else
              (case dropWhile isDigit cs of
                 b # rest \<Rightarrow>
                   if b = CHR '']''
                   then map_option (Cons (Index (digitsToNat (takeWhile isDigit cs)))) (parseSegs rest)
                   else None
               | [] \<Rightarrow> None)))
      else None)"
  by pat_completeness auto
termination
  apply (relation "measure length")
  apply simp
  apply (simp add: length_dropWhile_le le_imp_less_Suc)
  subgoal premises p for c cs x21 x22 x21a x22a
    using p length_dropWhile_le[of "\<lambda>x. x \<noteq> CHR 0x22" "tl cs"] by (cases cs) auto
  subgoal premises p for c cs x21 x22
    using p length_dropWhile_le[of isDigit cs] by auto
  done

definition parsePath :: "string \<Rightarrow> Segment list option" where
  "parsePath s =
     (case s of
        [] \<Rightarrow> Some []
      | c # cs \<Rightarrow>
          if c = CHR ''$'' then parseSegs cs
          else if c = CHR ''['' then parseSegs s
          else parseSegs (CHR ''.'' # s))"

fun walk :: "store \<Rightarrow> Node \<Rightarrow> Segment list \<Rightarrow> Node option" where
  "walk m nd [] = Some nd"
| "walk m nd (Key k # segs) =
     (if ntype nd = TObject
      then (case getChild m nd k of None \<Rightarrow> None | Some child \<Rightarrow> walk m child segs)
      else None)"
| "walk m nd (Index i # segs) =
     (if ntype nd = TArray
      then (case getChild m nd (showNat i) of None \<Rightarrow> None | Some child \<Rightarrow> walk m child segs)
      else None)"

definition findNodeByPath :: "Tree \<Rightarrow> string \<Rightarrow> Node option" where
  "findNodeByPath t path =
     (case root t of
        None \<Rightarrow> None
      | Some r \<Rightarrow> (case parsePath path of None \<Rightarrow> None | Some segs \<Rightarrow> walk (nodeMap t) r segs))"

section \<open>Vocabulary of the properties\<close>

text \<open>The offset invariant of a node.\<close>

definition spanInv :: "Node \<Rightarrow> bool" where
  "spanInv n = (boundOffset n \<le> offset n \<and> boundOffset n + boundLength n = offset n + nlength n)"

text \<open>
  \<open>sameSpans\<close>: the four span fields agree. \<open>sameButLayout\<close>: \<open>n'\<close> is \<open>n\<close> up to its four
  span fields and the order of its child keys.
\<close>

definition sameSpans :: "Node \<Rightarrow> Node \<Rightarrow> bool" where
  "sameSpans n n' =
     (offset n' = offset n \<and> nlength n' = nlength n \<and> boundOffset n' = boundOffset n \<and>
      boundLength n' = boundLength n)"

definition sameButLayout :: "Node \<Rightarrow> Node \<Rightarrow> bool" where
  "sameButLayout n n' =
     (nid n' = nid n \<and> ntype n' = ntype n \<and> rawValue n' = rawValue n \<and>
      set (childrenKeys n') = set (childrenKeys n) \<and>
      distinct (childrenKeys n') = distinct (childrenKeys n))"

text \<open>
  The nodes a call of \<open>stringifyNode\<close> on \<open>ref\<close> visits: the node itself and, below a
  container, the nodes visited from each child.
\<close>

inductive visits :: "store \<Rightarrow> node_id \<Rightarrow> node_id \<Rightarrow> bool" for m :: store where
  visits_self: "visits m ref ref"
| visits_child:
    "m ref = Some nd \<Longrightarrow> isIterable nd \<Longrightarrow> key \<in> set (getChildrenKeys nd) \<Longrightarrow>
     visits m (getChildId nd key) r \<Longrightarrow> visits m ref r"

text \<open>Two stores hold the same nodes up to span fields and the order of child keys.\<close>

definition sameSkel :: "store \<Rightarrow> store \<Rightarrow> bool" where
  "sameSkel m m' = (\<forall>r. rel_option sameButLayout (m r) (m' r))"

text \<open>Every node of \<open>m'\<close> is as in \<open>m\<close> or satisfies the offset invariant.\<close>

definition invOrSame :: "store \<Rightarrow> store \<Rightarrow> bool" where
  "invOrSame m m' = (\<forall>r. m' r = m r \<or> (\<exists>n'. m' r = Some n' \<and> spanInv n'))"

definition allInv :: "store \<Rightarrow> bool" where
  "allInv m = (\<forall>r n. m r = Some n \<longrightarrow> spanInv n)"

text \<open>
  The two trees, walked together from \<open>node1\<close> and \<open>node2\<close> along the keys of both, are
  at most \<open>k\<close> levels deep.
\<close>

primrec pairDepthLE :: "nat \<Rightarrow> store \<Rightarrow> store \<Rightarrow> Node \<Rightarrow> Node \<Rightarrow> bool" where
  "pairDepthLE 0 m1 m2 node1 node2 = False"
| "pairDepthLE (Suc k) m1 m2 node1 node2 =
     list_all
       (\<lambda>key. case getChild m1 node1 key of
                 None \<Rightarrow> True
               | Some child1 \<Rightarrow>
                   (case getChild m2 node2 key of
                      None \<Rightarrow> True
                    | Some child2 \<Rightarrow> pairDepthLE k m1 m2 child1 child2))
       (union_keys (getChildrenKeys node1) (getChildrenKeys node2))"

text \<open>\<open>n'\<close> is \<open>n\<close> with its child keys in another order, and any spans.\<close>

definition reorderedNode :: "Node \<Rightarrow> Node \<Rightarrow> bool" where
  "reorderedNode n n' =
     (nid n' = nid n \<and> ntype n' = ntype n \<and> rawValue n' = rawValue n \<and>
      set (childrenKeys n') = set (childrenKeys n))"

definition reordered :: "store \<Rightarrow> store \<Rightarrow> bool" where
  "reordered m m' = (\<forall>r. rel_option reorderedNode (m r) (m' r))"

text \<open>
  \<open>d1\<close> and \<open>d2\<close> are corresponding nodes of the two trees below \<open>n1\<close> and \<open>n2\<close>: they
  are reached from them by the same keys.
\<close>

inductive corresponding :: "store \<Rightarrow> store \<Rightarrow> Node \<Rightarrow> Node \<Rightarrow> Node \<Rightarrow> Node \<Rightarrow> bool"
  for m1 :: store and m2 :: store where
  corr_here: "corresponding m1 m2 n1 n2 n1 n2"
| corr_child:
    "getChild m1 n1 key = Some c1 \<Longrightarrow> getChild m2 n2 key = Some c2 \<Longrightarrow>
     key \<in> set (childrenKeys n1) \<union> set (childrenKeys n2) \<Longrightarrow>
     corresponding m1 m2 c1 c2 d1 d2 \<Longrightarrow> corresponding m1 m2 n1 n2 d1 d2"

text \<open>
  Two corresponding nodes agree: they have the same type, and without child keys on both
  sides the same raw value, otherwise a child on both sides for every key of the union of
  their child keys.
\<close>

definition nodesAgree :: "store \<Rightarrow> store \<Rightarrow> Node \<Rightarrow> Node \<Rightarrow> bool" where
  "nodesAgree m1 m2 d1 d2 =
     (ntype d1 = ntype d2 \<and>
      (if childrenKeys d1 = [] \<and> childrenKeys d2 = [] then getRawValue d1 = getRawValue d2
       else list_all (\<lambda>key. getChild m1 d1 key \<noteq> None \<and> getChild m2 d2 key \<noteq> None)
              (union_keys (childrenKeys d1) (childrenKeys d2))))"

text \<open>
  The vocabulary of the offset lookup. \<open>boundEnd\<close> is the right end of the bound span.
  \<open>treeOk k m nd\<close>: the tree below \<open>nd\<close> is at most \<open>k\<close> levels deep, every child key
  resolves to a node, along \<open>childrenKeys\<close> the bound spans of the children do not
  overlap and increase (each has a length that is not negative and ends where the next
  begins, or before), and the bound span of a child lies within the bound span of its
  parent. \<open>descends m nd x\<close>: \<open>x\<close> is \<open>nd\<close> or is reached from it through child keys.
\<close>

definition boundEnd :: "Node \<Rightarrow> int" where
  "boundEnd nd = boundOffset nd + boundLength nd"

definition childrenOf :: "store \<Rightarrow> Node \<Rightarrow> Node option list" where
  "childrenOf m nd = map (getChild m nd) (getChildrenKeys nd)"

definition spansIncrease :: "Node list \<Rightarrow> bool" where
  "spansIncrease cs =
     (list_all (\<lambda>c. 0 \<le> boundLength c) cs \<and> sorted_wrt (\<lambda>c d. boundEnd c \<le> boundOffset d) cs)"

primrec treeOk :: "nat \<Rightarrow> store \<Rightarrow> Node \<Rightarrow> bool" where
  "treeOk 0 m nd = False"
| "treeOk (Suc k) m nd =
     (case those (childrenOf m nd) of
        None \<Rightarrow> False
      | Some cs \<Rightarrow>
          spansIncrease cs \<and>
          list_all (\<lambda>c. boundOffset nd \<le> boundOffset c \<and> boundEnd c \<le> boundEnd nd) cs \<and>
          list_all (treeOk k m) cs)"

inductive descends :: "store \<Rightarrow> Node \<Rightarrow> Node \<Rightarrow> bool" for m :: store where
  descends_self: "descends m nd nd"
| descends_child:
    "key \<in> set (getChildrenKeys nd) \<Longrightarrow> getChild m nd key = Some c \<Longrightarrow> descends m c x \<Longrightarrow>
     descends m nd x"

text \<open>
  \<open>inBoundPath m off nd x\<close>: \<open>x\<close> is \<open>nd\<close> or a descendant of it, and the bound spans of
  \<open>x\<close> and of the nodes from \<open>nd\<close> down to it all contain \<open>off\<close>. \<open>x\<close> is innermost when
  no child of it contains \<open>off\<close>.
\<close>

inductive inBoundPath :: "store \<Rightarrow> int \<Rightarrow> Node \<Rightarrow> Node \<Rightarrow> bool" for m :: store and off :: int where
  path_here: "inBound off nd \<Longrightarrow> inBoundPath m off nd nd"
| path_down:
    "inBound off nd \<Longrightarrow> key \<in> set (getChildrenKeys nd) \<Longrightarrow> getChild m nd key = Some c \<Longrightarrow>
     inBoundPath m off c x \<Longrightarrow> inBoundPath m off nd x"

definition noChildInBound :: "store \<Rightarrow> int \<Rightarrow> Node \<Rightarrow> bool" where
  "noChildInBound m off nd =
     list_all (\<lambda>c. case c of None \<Rightarrow> True | Some ch \<Rightarrow> \<not> inBound off ch) (childrenOf m nd)"

definition innermostAt :: "store \<Rightarrow> int \<Rightarrow> Node \<Rightarrow> Node \<Rightarrow> bool" where
  "innermostAt m off nd x = (inBoundPath m off nd x \<and> noChildInBound m off x)"

definition pointType :: "int \<Rightarrow> Node \<Rightarrow> PointType" where
  "pointType off x =
     (if isGraphNode x then TypeNode
      else if offset x < off \<and> off \<le> offset x + nlength x then TypeValue else TypeKey)"

text \<open>What the loop of \<^verbatim>\<open>doFind\<close> returns once it has found \<open>child\<close> in bound.\<close>

definition picked :: "(Node \<Rightarrow> error + Node option) \<Rightarrow> Node \<Rightarrow> error + Node option" where
  "picked rec child =
     (case rec child of
        Inl e \<Rightarrow> Inl e
      | Inr None \<Rightarrow> Inr (Some child)
      | Inr (Some item) \<Rightarrow> Inr (Some item))"

text \<open>
  The vocabulary of the patch engine. \<open>reaches m r x\<close>: \<open>x\<close> is \<open>r\<close> or is reached from it
  through child keys; these are the nodes \<^verbatim>\<open>fixOffset\<close> walks. \<open>closedTree k m r\<close>: the tree
  below \<open>r\<close> is at most \<open>k\<close> levels deep and every child key in it resolves to a node.
  \<open>wfStore\<close>: every node is stored under its own identifier and no node lists a child key
  twice. \<open>shift a\<close> moves a node by \<open>a\<close>. \<open>after m r p x\<close>: in the tree below \<open>r\<close>, \<open>x\<close>
  comes after \<open>p\<close> in source order, that is, some node has \<open>p\<close> at or below one child and
  \<open>x\<close> at or below a later child.
\<close>

inductive reaches :: "store \<Rightarrow> node_id \<Rightarrow> node_id \<Rightarrow> bool" for m :: store where
  reaches_self: "reaches m r r"
| reaches_child:
    "m r = Some n \<Longrightarrow> key \<in> set (getChildrenKeys n) \<Longrightarrow> reaches m (getChildId n key) x \<Longrightarrow>
     reaches m r x"

primrec closedTree :: "nat \<Rightarrow> store \<Rightarrow> node_id \<Rightarrow> bool" where
  "closedTree 0 m r = False"
| "closedTree (Suc k) m r =
     (case m r of
        None \<Rightarrow> False
      | Some n \<Rightarrow> list_all (\<lambda>key. closedTree k m (getChildId n key)) (getChildrenKeys n))"








text \<open>
  The vocabulary of the offset invariant under the patch pass. \<open>allLe\<close>: every node of
  the store has a bound offset that is at most its offset. \<open>keepsInv m m'\<close>: a node that
  satisfies the offset invariant in \<open>m\<close> satisfies it in \<open>m'\<close>. \<open>restringified nest m r p\<close>:
  the walk of \<^verbatim>\<open>fixOffset\<close> from \<open>r\<close> reaches the pending node \<open>p\<close> through nodes that are not
  pending, and so hands \<open>p\<close> to \<open>stringifyNode\<close>.
\<close>

definition allLe :: "store \<Rightarrow> bool" where
  "allLe m = (\<forall>r n. m r = Some n \<longrightarrow> boundOffset n \<le> offset n)"

definition keepsInv :: "store \<Rightarrow> store \<Rightarrow> bool" where
  "keepsInv m m' = (\<forall>r n. m r = Some n \<and> spanInv n \<longrightarrow> (\<exists>n'. m' r = Some n' \<and> spanInv n'))"

inductive restringified :: "store option \<Rightarrow> store \<Rightarrow> node_id \<Rightarrow> node_id \<Rightarrow> bool"
  for nest :: "store option" and m :: store where
  restr_here: "m r = Some n \<Longrightarrow> isNest nest n \<Longrightarrow> restringified nest m r r"
| restr_down:
    "m r = Some n \<Longrightarrow> \<not> isNest nest n \<Longrightarrow> key \<in> set (getChildrenKeys n) \<Longrightarrow>
     restringified nest m (getChildId n key) p \<Longrightarrow> restringified nest m r p"


text \<open>
  What a run of the stringifier may have done to the store: a node is as before, or it is
  the same node up to its span fields and the order of its child keys, with the same span
  fields when the run was pure, and the identifier is one of \<open>W\<close>.
\<close>

definition wrote :: "StringifyOptions \<Rightarrow> (node_id \<Rightarrow> bool) \<Rightarrow> store \<Rightarrow> store \<Rightarrow> bool" where
  "wrote opts W m m' =
     (\<forall>r. m' r = m r \<or>
          (\<exists>n n'. m r = Some n \<and> m' r = Some n' \<and> sameButLayout n n' \<and>
                  (pure opts \<longrightarrow> sameSpans n n') \<and> W r))"

definition isOk :: "error + 'a \<Rightarrow> bool" where
  "isOk x = (case x of Inl e \<Rightarrow> False | Inr v \<Rightarrow> True)"

section \<open>Example trees\<close>

definition optsPlain :: StringifyOptions where
  "optsPlain = \<lparr>pure = False, format = False, sort_opt = None, tabWidth = None\<rparr>"

definition optsAsc :: StringifyOptions where
  "optsAsc = \<lparr>pure = False, format = False, sort_opt = Some Asc, tabWidth = None\<rparr>"

definition optsPure :: StringifyOptions where
  "optsPure = \<lparr>pure = True, format = False, sort_opt = None, tabWidth = None\<rparr>"

text \<open>The tree of \<^verbatim>\<open>{"a":1}\<close>.\<close>

definition map_a1 :: store where
  "map_a1 =
     [[] \<mapsto> \<lparr>nid = [], ntype = TObject, rawValue = None, childrenKeys = [''a''],
               offset = 0, nlength = 7, boundOffset = 0, boundLength = 7\<rparr>,
      [''a''] \<mapsto> \<lparr>nid = [''a''], ntype = TNumber, rawValue = Some ''1'', childrenKeys = [],
               offset = 5, nlength = 1, boundOffset = 1, boundLength = 5\<rparr>]"

definition tree_a1 :: Tree where
  "tree_a1 = \<lparr>nodeMap = map_a1, treeText = ''{'' @ dquote @ ''a'' @ dquote @ '':1}'',
              nestNodeMap = None, errors = None\<rparr>"

text \<open>The tree of \<^verbatim>\<open>{"b":1,"a":2}\<close>.\<close>

definition map_ba :: store where
  "map_ba =
     [[] \<mapsto> \<lparr>nid = [], ntype = TObject, rawValue = None, childrenKeys = [''b'', ''a''],
               offset = 0, nlength = 13, boundOffset = 0, boundLength = 13\<rparr>,
      [''b''] \<mapsto> \<lparr>nid = [''b''], ntype = TNumber, rawValue = Some ''1'', childrenKeys = [],
               offset = 5, nlength = 1, boundOffset = 1, boundLength = 5\<rparr>,
      [''a''] \<mapsto> \<lparr>nid = [''a''], ntype = TNumber, rawValue = Some ''2'', childrenKeys = [],
               offset = 11, nlength = 1, boundOffset = 7, boundLength = 5\<rparr>]"

definition tree_ba :: Tree where
  "tree_ba = \<lparr>nodeMap = map_ba,
              treeText = ''{'' @ dquote @ ''b'' @ dquote @ '':1,'' @ dquote @ ''a'' @ dquote @ '':2}'',
              nestNodeMap = None, errors = None\<rparr>"

text \<open>The trees of \<^verbatim>\<open>{"a":1,"b":2}\<close> and of \<^verbatim>\<open>{"b":2,"a":1}\<close>.\<close>

definition map_a1b2 :: store where
  "map_a1b2 =
     [[] \<mapsto> \<lparr>nid = [], ntype = TObject, rawValue = None, childrenKeys = [''a'', ''b''],
               offset = 0, nlength = 13, boundOffset = 0, boundLength = 13\<rparr>,
      [''a''] \<mapsto> \<lparr>nid = [''a''], ntype = TNumber, rawValue = Some ''1'', childrenKeys = [],
               offset = 5, nlength = 1, boundOffset = 1, boundLength = 5\<rparr>,
      [''b''] \<mapsto> \<lparr>nid = [''b''], ntype = TNumber, rawValue = Some ''2'', childrenKeys = [],
               offset = 11, nlength = 1, boundOffset = 7, boundLength = 5\<rparr>]"

definition tree_a1b2 :: Tree where
  "tree_a1b2 = \<lparr>nodeMap = map_a1b2,
              treeText = ''{'' @ dquote @ ''a'' @ dquote @ '':1,'' @ dquote @ ''b'' @ dquote @ '':2}'',
              nestNodeMap = None, errors = None\<rparr>"

definition map_b2a1 :: store where
  "map_b2a1 =
     [[] \<mapsto> \<lparr>nid = [], ntype = TObject, rawValue = None, childrenKeys = [''b'', ''a''],
               offset = 0, nlength = 13, boundOffset = 0, boundLength = 13\<rparr>,
      [''b''] \<mapsto> \<lparr>nid = [''b''], ntype = TNumber, rawValue = Some ''2'', childrenKeys = [],
               offset = 5, nlength = 1, boundOffset = 1, boundLength = 5\<rparr>,
      [''a''] \<mapsto> \<lparr>nid = [''a''], ntype = TNumber, rawValue = Some ''1'', childrenKeys = [],
               offset = 11, nlength = 1, boundOffset = 7, boundLength = 5\<rparr>]"

definition tree_b2a1 :: Tree where
  "tree_b2a1 = \<lparr>nodeMap = map_b2a1,
              treeText = ''{'' @ dquote @ ''b'' @ dquote @ '':2,'' @ dquote @ ''a'' @ dquote @ '':1}'',
              nestNodeMap = None, errors = None\<rparr>"

text \<open>The tree of \<^verbatim>\<open>{"a":{"b":{"c":"d"}}}\<close>.\<close>

definition map_abcd :: store where
  "map_abcd =
     [[] \<mapsto> \<lparr>nid = [], ntype = TObject, rawValue = None, childrenKeys = [''a''],
               offset = 0, nlength = 21, boundOffset = 0, boundLength = 21\<rparr>,
      [''a''] \<mapsto> \<lparr>nid = [''a''], ntype = TObject, rawValue = None, childrenKeys = [''b''],
               offset = 5, nlength = 15, boundOffset = 1, boundLength = 19\<rparr>,
      [''a'', ''b''] \<mapsto> \<lparr>nid = [''a'', ''b''], ntype = TObject, rawValue = None,
               childrenKeys = [''c''],
               offset = 10, nlength = 9, boundOffset = 6, boundLength = 13\<rparr>,
      [''a'', ''b'', ''c''] \<mapsto> \<lparr>nid = [''a'', ''b'', ''c''], ntype = TString,
               rawValue = Some (dquote @ ''d'' @ dquote), childrenKeys = [],
               offset = 15, nlength = 3, boundOffset = 11, boundLength = 7\<rparr>]"

definition tree_abcd :: Tree where
  "tree_abcd = \<lparr>nodeMap = map_abcd,
       treeText = ''{'' @ dquote @ ''a'' @ dquote @ '':{'' @ dquote @ ''b'' @ dquote @ '':{'' @
                  dquote @ ''c'' @ dquote @ '':'' @ dquote @ ''d'' @ dquote @ ''}}}'',
       nestNodeMap = None, errors = None\<rparr>"

text \<open>
  A tree of the text \<^verbatim>\<open>{"a":2,"b":1}\<close> whose root lists its child keys as \<open>b\<close>, \<open>a\<close>: the
  keys are not in the order of the spans.
\<close>

definition map_ba_sorted :: store where
  "map_ba_sorted =
     [[] \<mapsto> \<lparr>nid = [], ntype = TObject, rawValue = None, childrenKeys = [''b'', ''a''],
               offset = 0, nlength = 13, boundOffset = 0, boundLength = 13\<rparr>,
      [''b''] \<mapsto> \<lparr>nid = [''b''], ntype = TNumber, rawValue = Some ''1'', childrenKeys = [],
               offset = 11, nlength = 1, boundOffset = 7, boundLength = 5\<rparr>,
      [''a''] \<mapsto> \<lparr>nid = [''a''], ntype = TNumber, rawValue = Some ''2'', childrenKeys = [],
               offset = 5, nlength = 1, boundOffset = 1, boundLength = 5\<rparr>]"

definition tree_ba_sorted :: Tree where
  "tree_ba_sorted = \<lparr>nodeMap = map_ba_sorted,
              treeText = ''{'' @ dquote @ ''a'' @ dquote @ '':2,'' @ dquote @ ''b'' @ dquote @ '':1}'',
              nestNodeMap = None, errors = None\<rparr>"

text \<open>
  The tree of \<^verbatim>\<open>{"p":[1],"z":2}\<close> after the array \<open>p\<close> has received a second element \<open>22\<close>:
  the node map holds the new element, the text and the spans are the old ones, and the
  pending map holds \<open>p\<close>.
\<close>

definition map_patch :: store where
  "map_patch =
     [[] \<mapsto> \<lparr>nid = [], ntype = TObject, rawValue = None, childrenKeys = [''p'', ''z''],
               offset = 0, nlength = 15, boundOffset = 0, boundLength = 15\<rparr>,
      [''p''] \<mapsto> \<lparr>nid = [''p''], ntype = TArray, rawValue = None, childrenKeys = [''0'', ''1''],
               offset = 5, nlength = 3, boundOffset = 1, boundLength = 7\<rparr>,
      [''p'', ''0''] \<mapsto> \<lparr>nid = [''p'', ''0''], ntype = TNumber, rawValue = Some ''1'',
               childrenKeys = [],
               offset = 6, nlength = 1, boundOffset = 6, boundLength = 1\<rparr>,
      [''p'', ''1''] \<mapsto> \<lparr>nid = [''p'', ''1''], ntype = TNumber, rawValue = Some ''22'',
               childrenKeys = [],
               offset = 0, nlength = 0, boundOffset = 0, boundLength = 0\<rparr>,
      [''z''] \<mapsto> \<lparr>nid = [''z''], ntype = TNumber, rawValue = Some ''2'', childrenKeys = [],
               offset = 13, nlength = 1, boundOffset = 9, boundLength = 5\<rparr>]"

definition tree_patch :: Tree where
  "tree_patch = \<lparr>nodeMap = map_patch,
       treeText = ''{'' @ dquote @ ''p'' @ dquote @ '':[1],'' @ dquote @ ''z'' @ dquote @ '':2}'',
       nestNodeMap = Some [[''p''] \<mapsto> \<lparr>nid = [''p''], ntype = TArray, rawValue = None,
               childrenKeys = [''0'', ''1''],
               offset = 0, nlength = 0, boundOffset = 0, boundLength = 0\<rparr>],
       errors = None\<rparr>"

text \<open>
  The tree \<open>tree_patch\<close> with a new element whose bound span was never computed: it has
  the length of its token, 2, and bound length 0.
\<close>

definition map_patch_stale :: store where
  "map_patch_stale =
     map_patch([''p'', ''1''] \<mapsto> \<lparr>nid = [''p'', ''1''], ntype = TNumber, rawValue = Some ''22'',
               childrenKeys = [],
               offset = 0, nlength = 2, boundOffset = 0, boundLength = 0\<rparr>)"

definition tree_patch_stale :: Tree where
  "tree_patch_stale = tree_patch\<lparr>nodeMap := map_patch_stale\<rparr>"

text \<open>
  A tree whose sibling spans are in order but in which a node lies outside its parent: the
  root spans \<open>(0, 20]\<close>, its children \<open>a\<close> and \<open>b\<close> span \<open>(1, 5]\<close> and \<open>(6, 10]\<close>, and the
  child \<open>x\<close> of \<open>a\<close> spans \<open>(7, 9]\<close>.
\<close>

definition map_un :: store where
  "map_un =
     [[] \<mapsto> \<lparr>nid = [], ntype = TObject, rawValue = None, childrenKeys = [''a'', ''b''],
               offset = 0, nlength = 20, boundOffset = 0, boundLength = 20\<rparr>,
      [''a''] \<mapsto> \<lparr>nid = [''a''], ntype = TObject, rawValue = None, childrenKeys = [''x''],
               offset = 3, nlength = 2, boundOffset = 1, boundLength = 4\<rparr>,
      [''a'', ''x''] \<mapsto> \<lparr>nid = [''a'', ''x''], ntype = TNumber, rawValue = Some ''1'',
               childrenKeys = [],
               offset = 8, nlength = 1, boundOffset = 7, boundLength = 2\<rparr>,
      [''b''] \<mapsto> \<lparr>nid = [''b''], ntype = TNumber, rawValue = Some ''2'', childrenKeys = [],
               offset = 9, nlength = 1, boundOffset = 6, boundLength = 4\<rparr>]"

definition tree_un :: Tree where
  "tree_un = \<lparr>nodeMap = map_un, treeText = replicate 20 (CHR '' ''),
              nestNodeMap = None, errors = None\<rparr>"

text \<open>The tree of \<^verbatim>\<open>{"a":2}\<close>.\<close>

definition map_a2 :: store where
  "map_a2 =
     [[] \<mapsto> \<lparr>nid = [], ntype = TObject, rawValue = None, childrenKeys = [''a''],
               offset = 0, nlength = 7, boundOffset = 0, boundLength = 7\<rparr>,
      [''a''] \<mapsto> \<lparr>nid = [''a''], ntype = TNumber, rawValue = Some ''2'', childrenKeys = [],
               offset = 5, nlength = 1, boundOffset = 1, boundLength = 5\<rparr>]"

definition tree_a2 :: Tree where
  "tree_a2 = \<lparr>nodeMap = map_a2, treeText = ''{'' @ dquote @ ''a'' @ dquote @ '':2}'',
              nestNodeMap = None, errors = None\<rparr>"

text \<open>The tree of \<^verbatim>\<open>[ ]\<close>, an empty array written with a blank inside.\<close>

definition map_blank :: store where
  "map_blank =
     [[] \<mapsto> \<lparr>nid = [], ntype = TArray, rawValue = None, childrenKeys = [],
               offset = 0, nlength = 3, boundOffset = 0, boundLength = 3\<rparr>]"

definition tree_blank :: Tree where
  "tree_blank = \<lparr>nodeMap = map_blank, treeText = ''[ ]'', nestNodeMap = None, errors = None\<rparr>"

text \<open>A leaf without a raw value.\<close>

definition map_noraw :: store where
  "map_noraw =
     [[] \<mapsto> \<lparr>nid = [], ntype = TNull, rawValue = None, childrenKeys = [],
               offset = 0, nlength = 4, boundOffset = 0, boundLength = 4\<rparr>]"

section \<open>Validity and the lookup on an invalid tree\<close>

lemma valid_iff: "valid t \<longleftrightarrow> (root t \<noteq> None \<and> (errors t = None \<or> errors t = Some []))"
  by (auto simp: valid_def hasError_def split: option.splits)

text \<open>
  C8. On a tree that is not valid, \<open>findNodeAtOffset\<close> returns no result at every offset
  and with every fuel, and raises nothing; and a tree is valid exactly when it has a root
  node and its error list is absent or empty.
\<close>

theorem findNodeAtOffset_invalid:
  "(\<not> valid t \<longrightarrow> findNodeAtOffset fuel t off = Inr None) \<and>
   (valid t \<longleftrightarrow> (nodeMap t rootMarker \<noteq> None \<and> (errors t = None \<or> errors t = Some [])))"
  by (simp add: findNodeAtOffset_def valid_iff root_def node_def)

theorem findNodeAtOffset_invalid_witness:
  "\<not> valid (tree_a1\<lparr>errors := Some [''unexpected token'']\<rparr>) \<and>
   findNodeAtOffset 3 (tree_a1\<lparr>errors := Some [''unexpected token'']\<rparr>) 6 = Inr None"
proof -
  have h: "\<not> valid (tree_a1\<lparr>errors := Some [''unexpected token'']\<rparr>)"
    by (simp add: valid_def hasError_def)
  from findNodeAtOffset_invalid[of "tree_a1\<lparr>errors := Some [''unexpected token'']\<rparr>" 3 6] h
  have "findNodeAtOffset 3 (tree_a1\<lparr>errors := Some [''unexpected token'']\<rparr>) 6 = Inr None"
    by blast
  with h show ?thesis by blast
qed

section \<open>What the stringifier writes\<close>

lemma assign_apply:
  "assign m ref f r = (if r = ref then map_option f (m ref) else m r)"
  by (auto simp: assign_def split: option.splits)

lemma stringifyChildren_preorder:
  assumes R_refl: "\<And>m. R m m"
      and R_trans: "\<And>a b c. R a b \<Longrightarrow> R b c \<Longrightarrow> R a c"
      and rec: "\<And>m r l o' b s m'. rec m r l o' b = Inr (s, m') \<Longrightarrow> r \<noteq> [] \<Longrightarrow> b \<le> o' \<Longrightarrow> R m m'"
      and run: "stringifyChildren rec opts nd lvl off keys s0 m = Inr (s, m')"
  shows "R m m'"
  using run
proof (induction keys arbitrary: s0 m)
  case Nil
  then show ?case by (simp add: R_refl)
next
  case (Cons key rest)
  from Cons.prems obtain cs m1 s4 lvl' co cb where
    call: "rec m (getChildId nd key) lvl' co cb = Inr (cs, m1)" and le: "cb \<le> co"
    and rest: "stringifyChildren rec opts nd lvl off rest s4 m1 = Inr (s, m')"
    by (auto simp: Let_def split: sum.splits if_splits)
  have "R m m1" using rec[OF call _ le] by (simp add: getChildId_def)
  moreover have "R m1 m'" using Cons.IH[OF rest] .
  ultimately show ?case by (rule R_trans)
qed

lemma emittedKeys_set: "set (emittedKeys opts nd) = set (childrenKeys nd)"
  by (auto simp: emittedKeys_def getChildrenKeys_def Let_def split: option.splits SortOrder.splits)


lemma emittedKeys_distinct: "distinct (emittedKeys opts nd) = distinct (childrenKeys nd)"
  by (auto simp: emittedKeys_def getChildrenKeys_def Let_def split: option.splits SortOrder.splits)


lemma sortStored_apply:
  "sortStored ka opts m ref r =
     (if r = ref \<and> ka = StoredArray
      then map_option (\<lambda>n. n\<lparr>childrenKeys := emittedKeys opts n\<rparr>) (m ref) else m r)"
  by (cases ka) (auto simp: sortStored_def assign_apply)

lemma sameButLayout_sorted: "sameButLayout n (n\<lparr>childrenKeys := emittedKeys opts n\<rparr>)"
  by (simp add: sameButLayout_def emittedKeys_set emittedKeys_distinct)

lemma wrote_refl: "wrote opts W m m"
  by (simp add: wrote_def)

lemma wrote_trans:
  assumes ab: "wrote opts W a b" and bc: "wrote opts W b c"
  shows "wrote opts W a c"
  unfolding wrote_def
proof
  fix r
  from ab have 1: "b r = a r \<or> (\<exists>n n'. a r = Some n \<and> b r = Some n' \<and> sameButLayout n n' \<and>
                  (pure opts \<longrightarrow> sameSpans n n') \<and> W r)"
    unfolding wrote_def by blast
  from bc have 2: "c r = b r \<or> (\<exists>n n'. b r = Some n \<and> c r = Some n' \<and> sameButLayout n n' \<and>
                  (pure opts \<longrightarrow> sameSpans n n') \<and> W r)"
    unfolding wrote_def by blast
  show "c r = a r \<or> (\<exists>n n'. a r = Some n \<and> c r = Some n' \<and> sameButLayout n n' \<and>
                  (pure opts \<longrightarrow> sameSpans n n') \<and> W r)"
  proof (cases "b r = a r")
    case True
    with 2 show ?thesis by metis
  next
    case False
    with 1 obtain n n' where n: "a r = Some n" "b r = Some n'" "sameButLayout n n'"
      "pure opts \<longrightarrow> sameSpans n n'" "W r"
      by blast
    show ?thesis
    proof (cases "c r = b r")
      case True
      with n show ?thesis by simp
    next
      case False
      with 2 n obtain n'' where "c r = Some n''" "sameButLayout n' n''"
        "pure opts \<longrightarrow> sameSpans n' n''" by auto
      with n show ?thesis by (auto simp: sameButLayout_def sameSpans_def)
    qed
  qed
qed

lemma wrote_mono: "wrote opts W a b \<Longrightarrow> (\<And>r. W r \<Longrightarrow> W' r) \<Longrightarrow> wrote opts W' a b"
  unfolding wrote_def by blast

lemma wrote_assign:
  "\<not> pure opts \<Longrightarrow> W ref \<Longrightarrow> (\<And>n. sameButLayout n (f n)) \<Longrightarrow> wrote opts W m (assign m ref f)"
  unfolding wrote_def by (auto simp: assign_apply)

lemma wrote_sortStored: "W ref \<Longrightarrow> wrote opts W m (sortStored ka opts m ref)"
  unfolding wrote_def
  by (auto simp: sortStored_apply sameButLayout_sorted sameSpans_def)

lemma stringifyNode_wrote:
  "stringifyNode ka fuel opts m ref lvl off boff = Inr (s, m') \<Longrightarrow>
   wrote opts (\<lambda>r. r = ref \<or> r \<noteq> []) m m'"
proof (induction fuel arbitrary: m ref lvl off boff s m')
  case 0
  then show ?case by simp
next
  case (Suc fuel)
  let ?W = "\<lambda>r. r = ref \<or> r \<noteq> []"
  from Suc.prems obtain nd where nd: "m ref = Some nd"
    by (auto split: option.splits)
  show ?case
  proof (cases "isIterable nd")
    case False
    with Suc.prems nd show ?thesis
      by (auto simp: Let_def wrote_refl sameButLayout_def computeAndSetBoundLength_def
               intro!: wrote_assign split: if_splits)
  next
    case True
    define m0 where "m0 = (if pure opts then m
                       else assign m ref (\<lambda>n. n\<lparr>boundOffset := boff, offset := off\<rparr>))"
    define m1 where "m1 = sortStored ka opts m0 ref"
    from Suc.prems nd True obtain s2 m2 where
      loop: "stringifyChildren (stringifyNode ka fuel opts) opts nd lvl off
               (emittedKeys opts nd) (if ntype nd = TObject then ''{'' else ''['') m1 = Inr (s2, m2)"
      and m': "m' = (if pure opts then m2
                    else assign m2 ref (\<lambda>n. computeAndSetBoundLength
                           (n\<lparr>nlength := int (length (s2 @ (if ntype nd = TObject then ''}'' else '']'')))\<rparr>)))"
      by (auto simp: Let_def m1_def m0_def split: sum.splits)
    have a: "wrote opts ?W m m0"
      unfolding m0_def by (auto simp: wrote_refl sameButLayout_def intro!: wrote_assign)
    have a': "wrote opts ?W m0 m1"
      unfolding m1_def by (rule wrote_sortStored) simp
    have b: "wrote opts ?W m1 m2"
    proof (rule stringifyChildren_preorder[where R = "wrote opts ?W", OF wrote_refl wrote_trans _ loop])
      fix ma r l o' b sa ma'
      assume "stringifyNode ka fuel opts ma r l o' b = Inr (sa, ma')" "r \<noteq> []"
      from Suc.IH[OF this(1)] have "wrote opts (\<lambda>r'. r' = r \<or> r' \<noteq> []) ma ma'" .
      then show "wrote opts ?W ma ma'"
        by (rule wrote_mono) (use \<open>r \<noteq> []\<close> in auto)
    qed
    have c: "wrote opts ?W m2 m'"
      unfolding m' by (auto simp: wrote_refl sameButLayout_def computeAndSetBoundLength_def intro!: wrote_assign)
    from a a' b c show ?thesis by (blast intro: wrote_trans)
  qed
qed

lemma stringifyNode_pure_spans:
  assumes "stringifyNode ka fuel opts m ref lvl off boff = Inr (s, m')" and "pure opts"
  shows "rel_option sameSpans (m r) (m' r)"
proof -
  from stringifyNode_wrote[OF assms(1)] assms(2)
  have "m' r = m r \<or> (\<exists>n n'. m r = Some n \<and> m' r = Some n' \<and> sameSpans n n')"
    unfolding wrote_def by blast
  then show ?thesis
    by (cases "m r") (auto simp: sameSpans_def)
qed

lemma stringifyNode_sameButLayout:
  assumes "stringifyNode ka fuel opts m ref lvl off boff = Inr (s, m')"
  shows "rel_option sameButLayout (m r) (m' r)"
proof -
  from stringifyNode_wrote[OF assms]
  have "m' r = m r \<or> (\<exists>n n'. m r = Some n \<and> m' r = Some n' \<and> sameButLayout n n')"
    unfolding wrote_def by blast
  then show ?thesis
    by (cases "m r") (auto simp: sameButLayout_def)
qed

lemma stringifyNode_root_untouched:
  assumes "stringifyNode ka fuel opts m ref lvl off boff = Inr (s, m')" and "ref \<noteq> []"
  shows "m' [] = m []"
  using stringifyNode_wrote[OF assms(1)] assms(2) unfolding wrote_def by blast


section \<open>Key order, missing raw values, pure mode\<close>











text \<open>
  C9. A leaf whose raw value is missing is rendered as the empty string and nothing is
  raised; when the call is not pure the node gets length 0 together with the given offsets,
  and when it is pure the store is as before.
\<close>

theorem stringifyNode_missing_raw:
  assumes "m ref = Some nd" and "\<not> isIterable nd" and "getRawValue nd = None"
  shows "stringifyNode ka (Suc fuel) opts m ref lvl off boff =
           Inr ([], if pure opts then m
                    else m(ref \<mapsto> nd\<lparr>nlength := 0, offset := off, boundOffset := boff,
                                       boundLength := off - boff\<rparr>))"
  using assms by (simp add: assign_def computeAndSetBoundLength_def)

theorem stringifyNode_missing_raw_witness:
  "stringifyNode StoredArray 1 optsPlain map_noraw [] 0 0 0 =
     Inr ([], map_noraw([] \<mapsto> \<lparr>nid = [], ntype = TNull, rawValue = None, childrenKeys = [],
               offset = 0, nlength = 0, boundOffset = 0, boundLength = 0\<rparr>))"
proof -
  have nd: "map_noraw [] = Some \<lparr>nid = [], ntype = TNull, rawValue = None, childrenKeys = [],
               offset = 0, nlength = 4, boundOffset = 0, boundLength = 4\<rparr>"
    by (simp add: map_noraw_def)
  from stringifyNode_missing_raw[where m = map_noraw and ref = "[]" and ka = StoredArray and fuel = 0
      and opts = optsPlain and lvl = 0 and off = 0 and boff = 0, OF nd]
  show ?thesis by (simp add: isIterable_def getRawValue_def optsPlain_def)
qed

text \<open>
  C6. In pure mode \<open>stringifyNode\<close> leaves the span fields of every node as they are
  (\<open>stringifyNode_pure_spans\<close>), but \<open>stringify\<close> then assigns the length of the new text to the
  root, whichever array \<^verbatim>\<open>getChildrenKeys\<close> hands out: on the tree of
  \<^verbatim>\<open>[ ]\<close> the root had length 3 and bound length 3, and after the pure \<open>stringify\<close> it has
  length 2 and bound length 3.
\<close>

theorem stringify_pure_sets_root_length:
  "map_option nlength (nodeMap tree_blank []) = Some 3 \<and>
   map_sum id (\<lambda>(s, t'). (s, map_option nlength (nodeMap t' []), map_option boundLength (nodeMap t' [])))
     (stringify ka 1 optsPure tree_blank) = Inr (''[]'', Some 2, Some 3)"
  by (cases ka)
     (simp_all add: stringify_def tree_blank_def map_blank_def optsPure_def rootMarker_def
        isIterable_def emittedKeys_def getChildrenKeys_def assign_def sortStored_def)

section \<open>The lookup at offset 0\<close>


lemma stringifyNode_root_spans:
  assumes run: "stringifyNode ka fuel opts m [] lvl off boff = Inr (s, m')" and np: "\<not> pure opts"
  shows "\<exists>n'. m' [] = Some n' \<and> boundOffset n' = boff \<and> offset n' = off \<and>
              nlength n' = int (length s) \<and> boundLength n' = off + int (length s) - boff"
proof (cases fuel)
  case 0
  with run show ?thesis by simp
next
  case (Suc f)
  from run Suc obtain nd where nd: "m [] = Some nd"
    by (auto split: option.splits)
  show ?thesis
  proof (cases "isIterable nd")
    case False
    with run Suc nd np show ?thesis
      by (auto simp: Let_def assign_apply computeAndSetBoundLength_def)
  next
    case True
    define m1 where "m1 = sortStored ka opts
                            (assign m [] (\<lambda>n. n\<lparr>boundOffset := boff, offset := off\<rparr>)) []"
    from run Suc nd True np obtain s2 m2 where
      loop: "stringifyChildren (stringifyNode ka f opts) opts nd lvl off
               (emittedKeys opts nd) (if ntype nd = TObject then ''{'' else ''['') m1 = Inr (s2, m2)"
      and s: "s = s2 @ (if ntype nd = TObject then ''}'' else '']'')"
      and m': "m' = assign m2 [] (\<lambda>n. computeAndSetBoundLength (n\<lparr>nlength := int (length s)\<rparr>))"
      by (auto simp: Let_def m1_def split: sum.splits)
    have "m2 [] = m1 []"
      by (rule stringifyChildren_preorder[where R = "\<lambda>a b. b [] = a []", OF _ _ _ loop])
         (auto dest: stringifyNode_root_untouched)
    with nd show ?thesis
      by (simp add: m' m1_def assign_apply sortStored_apply computeAndSetBoundLength_def)
  qed
qed

lemma doFind_not_inBound: "\<not> inBound off nd \<Longrightarrow> doFind (Suc fuel) m off nd = Inr None"
  by simp

text \<open>
  C10. On a valid tree whose root has a bound offset that is not negative, the lookup at
  offset 0 returns no result, the bound test being strict on the left; and after a
  \<open>stringify\<close> that is not pure the root has bound offset 0, so the lookup at 0 returns no
  result on the tree it leaves.
\<close>

theorem findNodeAtOffset_zero:
  "(valid t \<longrightarrow> (\<forall>r. root t = Some r \<longrightarrow> 0 \<le> boundOffset r \<longrightarrow>
       findNodeAtOffset (Suc fuel) t 0 = Inr None)) \<and>
   (stringify ka k opts t = Inr (s, t') \<and> \<not> pure opts \<longrightarrow>
       (\<exists>r. root t' = Some r \<and> boundOffset r = 0) \<and>
       findNodeAtOffset (Suc fuel) t' 0 = Inr None)"
proof -
  have gen: "findNodeAtOffset (Suc fuel) u 0 = Inr None" if "root u = Some r" "0 \<le> boundOffset r" for u r
    using that by (simp add: findNodeAtOffset_def inBound_def)
  have "(\<exists>r. root t' = Some r \<and> boundOffset r = 0) \<and> findNodeAtOffset (Suc fuel) t' 0 = Inr None"
    if run: "stringify ka k opts t = Inr (s, t')" and np: "\<not> pure opts"
  proof -
    from run obtain m' where
      sn: "stringifyNode ka k opts (nodeMap t) [] 0 0 0 = Inr (s, m')"
      and t': "t' = t\<lparr>nodeMap := assign m' [] (\<lambda>n. n\<lparr>nlength := int (length s)\<rparr>), treeText := s\<rparr>"
      by (auto simp: stringify_def rootMarker_def split: sum.splits)
    from stringifyNode_root_spans[OF sn np] obtain n' where
      "m' [] = Some n'" "boundOffset n' = 0" by auto
    then have r: "root t' = Some (n'\<lparr>nlength := int (length s)\<rparr>)"
      by (simp add: t' root_def node_def rootMarker_def assign_apply)
    with \<open>boundOffset n' = 0\<close> gen[OF r] show ?thesis by simp
  qed
  with gen show ?thesis by blast
qed

theorem findNodeAtOffset_zero_witness:
  "valid tree_a1 \<and> findNodeAtOffset 3 tree_a1 0 = Inr None \<and>
   (\<exists>s t'. stringify StoredArray 2 optsPlain tree_a1 = Inr (s, t') \<and>
      findNodeAtOffset 3 t' 0 = Inr None)"
proof -
  have v: "valid tree_a1"
    by (simp add: valid_def root_def node_def rootMarker_def tree_a1_def map_a1_def hasError_def)
  have r: "root tree_a1 = Some \<lparr>nid = [], ntype = TObject, rawValue = None, childrenKeys = [''a''],
               offset = 0, nlength = 7, boundOffset = 0, boundLength = 7\<rparr>"
    by (simp add: root_def node_def rootMarker_def tree_a1_def map_a1_def)
  have "isOk (stringify StoredArray 2 optsPlain tree_a1)" by code_simp
  then obtain s t' where run: "stringify StoredArray 2 optsPlain tree_a1 = Inr (s, t')"
    by (cases "stringify StoredArray 2 optsPlain tree_a1") (auto simp: isOk_def)
  have np: "\<not> pure optsPlain" by (simp add: optsPlain_def)
  from findNodeAtOffset_zero[where t = tree_a1 and fuel = 2 and k = 2 and opts = optsPlain
      and ka = StoredArray and s = s and t' = t'] v r run np
  have "findNodeAtOffset 3 tree_a1 0 = Inr None" "findNodeAtOffset 3 t' 0 = Inr None"
    by (simp_all add: numeral_3_eq_3)
  with v run show ?thesis by blast
qed

section \<open>The offset invariant\<close>


lemma wrote_sameSkel: "wrote opts W m m' \<Longrightarrow> sameSkel m m'"
  unfolding wrote_def sameSkel_def
proof
  fix r
  assume "\<forall>r. m' r = m r \<or> (\<exists>n n'. m r = Some n \<and> m' r = Some n' \<and> sameButLayout n n' \<and>
                  (pure opts \<longrightarrow> sameSpans n n') \<and> W r)"
  then have "m' r = m r \<or> (\<exists>n n'. m r = Some n \<and> m' r = Some n' \<and> sameButLayout n n')" by blast
  then show "rel_option sameButLayout (m r) (m' r)"
    by (cases "m r") (auto simp: sameButLayout_def)
qed

lemma sameSkel_refl: "sameSkel m m"
  by (simp add: sameSkel_def sameButLayout_def option.rel_refl)


lemma sameSkel_trans: "sameSkel a b \<Longrightarrow> sameSkel b c \<Longrightarrow> sameSkel a c"
  unfolding sameSkel_def
proof
  fix r assume "\<forall>r. rel_option sameButLayout (a r) (b r)" "\<forall>r. rel_option sameButLayout (b r) (c r)"
  then have "rel_option sameButLayout (a r) (b r)" "rel_option sameButLayout (b r) (c r)" by blast+
  then show "rel_option sameButLayout (a r) (c r)"
    by (cases "a r"; cases "b r"; cases "c r") (auto simp: sameButLayout_def)
qed

lemma sameSkel_Some:
  "sameSkel m m' \<Longrightarrow> m r = Some n \<Longrightarrow> \<exists>n'. m' r = Some n' \<and> sameButLayout n n'"
  unfolding sameSkel_def by (metis option.rel_cases option.distinct(1) option.inject)

lemma sameButLayout_fields:
  "sameButLayout n n' \<Longrightarrow> isIterable n' = isIterable n \<and>
     set (getChildrenKeys n') = set (getChildrenKeys n) \<and>
     getChildId n' key = getChildId n key \<and> nid n' = nid n"
  by (simp add: sameButLayout_def isIterable_def getChildrenKeys_def getChildId_def)

lemma visits_sameSkel:
  assumes "visits m a b" and "sameSkel m m'"
  shows "visits m' a b"
  using assms
proof (induction rule: visits.induct)
  case (visits_self ref)
  show ?case by (rule visits.visits_self)
next
  case (visits_child ref nd key r)
  from sameSkel_Some[OF visits_child.prems visits_child.hyps(1)] obtain nd' where
    nd': "m' ref = Some nd'" "sameButLayout nd nd'" by blast
  from sameButLayout_fields[OF nd'(2)] visits_child.hyps visits_child.IH[OF visits_child.prems]
  show ?case
    by (intro visits.visits_child[where m = m' and ref = ref and nd = nd' and key = key and r = r])
       (auto simp: nd')
qed

lemma invOrSame_refl: "invOrSame m m"
  by (simp add: invOrSame_def)

lemma invOrSame_trans: "invOrSame a b \<Longrightarrow> invOrSame b c \<Longrightarrow> invOrSame a c"
  unfolding invOrSame_def by metis

lemma stringifyChildren_wrote:
  assumes "stringifyChildren (stringifyNode ka fuel opts) opts nd lvl off keys s0 m = Inr (s, m')"
  shows "wrote opts (\<lambda>r. r \<noteq> []) m m'"
proof (rule stringifyChildren_preorder[where R = "wrote opts (\<lambda>r. r \<noteq> [])", OF wrote_refl wrote_trans _ assms])
  fix ma r l o' b sa ma'
  assume "stringifyNode ka fuel opts ma r l o' b = Inr (sa, ma')" "r \<noteq> []"
  from stringifyNode_wrote[OF this(1)] show "wrote opts (\<lambda>r. r \<noteq> []) ma ma'"
    by (rule wrote_mono) (use \<open>r \<noteq> []\<close> in auto)
qed

lemma stringifyNode_invOrSame:
  "stringifyNode ka fuel opts m ref lvl off boff = Inr (s, m') \<Longrightarrow> \<not> pure opts \<Longrightarrow> boff \<le> off \<Longrightarrow>
   invOrSame m m' \<and> (\<exists>n'. m' ref = Some n' \<and> spanInv n')"
proof (induction fuel arbitrary: m ref lvl off boff s m')
  case 0
  then show ?case by simp
next
  case (Suc fuel)
  from Suc.prems obtain nd where nd: "m ref = Some nd"
    by (auto split: option.splits)
  show ?case
  proof (cases "isIterable nd")
    case False
    with Suc.prems nd show ?thesis
      by (auto simp: Let_def invOrSame_def assign_apply spanInv_def computeAndSetBoundLength_def)
  next
    case True
    define m1 where "m1 = sortStored ka opts
                            (assign m ref (\<lambda>n. n\<lparr>boundOffset := boff, offset := off\<rparr>)) ref"
    from Suc.prems nd True obtain s2 m2 where
      loop: "stringifyChildren (stringifyNode ka fuel opts) opts nd lvl off
               (emittedKeys opts nd) (if ntype nd = TObject then ''{'' else ''['') m1 = Inr (s2, m2)"
      and m': "m' = assign m2 ref (\<lambda>n. computeAndSetBoundLength
                           (n\<lparr>nlength := int (length (s2 @ (if ntype nd = TObject then ''}'' else '']'')))\<rparr>))"
      by (auto simp: Let_def m1_def split: sum.splits)
    obtain n1 where m1ref: "m1 ref = Some n1" and n1: "boundOffset n1 = boff" "offset n1 = off"
      by (cases ka) (simp_all add: m1_def assign_apply sortStored_apply nd)
    have b: "invOrSame m1 m2"
    proof (rule stringifyChildren_preorder[where R = invOrSame, OF invOrSame_refl invOrSame_trans _ loop])
      fix ma r l o' b sa ma'
      assume "stringifyNode ka fuel opts ma r l o' b = Inr (sa, ma')" "b \<le> o'"
      from Suc.IH[OF this(1) Suc.prems(2) this(2)] show "invOrSame ma ma'" by blast
    qed
    from sameSkel_Some[OF wrote_sameSkel[OF stringifyChildren_wrote[OF loop]] m1ref]
    obtain n2 where n2: "m2 ref = Some n2" by blast
    from b have "m2 ref = m1 ref \<or> (\<exists>n'. m2 ref = Some n' \<and> spanInv n')"
      unfolding invOrSame_def by blast
    with n2 m1ref n1 Suc.prems(3) have le: "boundOffset n2 \<le> offset n2"
      by (auto simp: spanInv_def)
    have ref': "\<exists>n'. m' ref = Some n' \<and> spanInv n'"
      using n2 le by (simp add: m' assign_apply spanInv_def computeAndSetBoundLength_def)
    have "invOrSame m m'"
      unfolding invOrSame_def
    proof
      fix r
      show "m' r = m r \<or> (\<exists>n'. m' r = Some n' \<and> spanInv n')"
      proof (cases "r = ref")
        case True
        with ref' show ?thesis by simp
      next
        case False
        then have "m' r = m2 r" "m1 r = m r"
          by (simp_all add: m' m1_def assign_apply sortStored_apply)
        with b show ?thesis unfolding invOrSame_def by metis
      qed
    qed
    with ref' show ?thesis by blast
  qed
qed


lemma stringifyChildren_visits:
  assumes recInv: "\<And>ma r' l o' b s mb. rec ma r' l o' b = Inr (s, mb) \<Longrightarrow> r' \<noteq> [] \<Longrightarrow> b \<le> o' \<Longrightarrow>
                     invOrSame ma mb \<and> sameSkel ma mb"
      and recVis: "\<And>ma r' l o' b s mb. rec ma r' l o' b = Inr (s, mb) \<Longrightarrow> b \<le> o' \<Longrightarrow>
                     visits ma r' x \<Longrightarrow> \<exists>n'. mb x = Some n' \<and> spanInv n'"
      and run: "stringifyChildren rec opts nd lvl off ks s0 ma = Inr (s, m2)"
      and key: "key \<in> set ks" and vis: "visits ma (getChildId nd key) x"
  shows "\<exists>n'. m2 x = Some n' \<and> spanInv n'"
  using run key vis
proof (induction ks arbitrary: s0 ma)
  case Nil
  then show ?case by simp
next
  case (Cons k rest)
  from Cons.prems(1) obtain cs mb s4 lvl' co cb where
    call: "rec ma (getChildId nd k) lvl' co cb = Inr (cs, mb)" and le: "cb \<le> co"
    and rest: "stringifyChildren rec opts nd lvl off rest s4 mb = Inr (s, m2)"
    by (auto simp: Let_def split: sum.splits if_splits)
  have ne: "getChildId nd k \<noteq> []" by (simp add: getChildId_def)
  from recInv[OF call ne le] have ab: "invOrSame ma mb" "sameSkel ma mb" by blast+
  have tail: "invOrSame mb m2"
  proof (rule stringifyChildren_preorder[where R = invOrSame, OF invOrSame_refl invOrSame_trans _ rest])
    fix mc r l o' b sa md
    assume "rec mc r l o' b = Inr (sa, md)" "r \<noteq> []" "b \<le> o'"
    from recInv[OF this] show "invOrSame mc md" by blast
  qed
  show ?case
  proof (cases "key \<in> set rest")
    case True
    from Cons.IH[OF rest True visits_sameSkel[OF Cons.prems(3) ab(2)]] show ?thesis .
  next
    case False
    with Cons.prems(2) have "key = k" by simp
    with recVis[OF call le] Cons.prems(3) obtain n' where "mb x = Some n'" "spanInv n'" by blast
    with tail show ?thesis unfolding invOrSame_def by metis
  qed
qed

lemma stringifyNode_visits_inv:
  "stringifyNode ka fuel opts m ref lvl off boff = Inr (s, m') \<Longrightarrow> \<not> pure opts \<Longrightarrow> boff \<le> off \<Longrightarrow>
   visits m ref x \<Longrightarrow> \<exists>n'. m' x = Some n' \<and> spanInv n'"
proof (induction fuel arbitrary: m ref lvl off boff s m' x)
  case 0
  then show ?case by simp
next
  case (Suc fuel)
  note top = stringifyNode_invOrSame[OF Suc.prems(1,2,3)]
  show ?case
  proof (cases "x = ref")
    case True
    with top show ?thesis by blast
  next
    case False
    from Suc.prems(4) False obtain nd key where
      nd: "m ref = Some nd" and it: "isIterable nd" and key: "key \<in> set (getChildrenKeys nd)"
      and vis: "visits m (getChildId nd key) x"
      by (cases rule: visits.cases) auto
    define m0 where "m0 = assign m ref (\<lambda>n. n\<lparr>boundOffset := boff, offset := off\<rparr>)"
    define m1 where "m1 = sortStored ka opts m0 ref"
    from Suc.prems nd it obtain s2 m2 where
      loop: "stringifyChildren (stringifyNode ka fuel opts) opts nd lvl off
               (emittedKeys opts nd) (if ntype nd = TObject then ''{'' else ''['') m1 = Inr (s2, m2)"
      and m': "m' = assign m2 ref (\<lambda>n. computeAndSetBoundLength
                           (n\<lparr>nlength := int (length (s2 @ (if ntype nd = TObject then ''}'' else '']'')))\<rparr>))"
      by (auto simp: Let_def m1_def m0_def split: sum.splits)
    have "wrote opts (\<lambda>r. True) m m0"
      unfolding m0_def using Suc.prems(2) by (auto simp: sameButLayout_def intro!: wrote_assign)
    moreover have "wrote opts (\<lambda>r. True) m0 m1"
      unfolding m1_def by (rule wrote_sortStored) simp
    ultimately have "wrote opts (\<lambda>r. True) m m1" by (rule wrote_trans)
    then have sk: "sameSkel m m1" by (rule wrote_sameSkel)
    have key': "key \<in> set (emittedKeys opts nd)"
      using key by (simp add: emittedKeys_set getChildrenKeys_def)
    have "\<exists>n'. m2 x = Some n' \<and> spanInv n'"
    proof (rule stringifyChildren_visits[OF _ _ loop key' visits_sameSkel[OF vis sk]])
      fix ma r' l o' b sa mb
      assume call: "stringifyNode ka fuel opts ma r' l o' b = Inr (sa, mb)" and le: "b \<le> o'"
      from stringifyNode_invOrSame[OF call Suc.prems(2) le] wrote_sameSkel[OF stringifyNode_wrote[OF call]]
      show "invOrSame ma mb \<and> sameSkel ma mb" by blast
      assume "visits ma r' x"
      from Suc.IH[OF call Suc.prems(2) le this] show "\<exists>n'. mb x = Some n' \<and> spanInv n'" .
    qed
    with False show ?thesis by (simp add: m' assign_apply)
  qed
qed


lemma fixChildren_preserves:
  assumes rec: "\<And>st r st'. rec st r = Inr st' \<Longrightarrow> P st \<Longrightarrow> P st'"
      and run: "fixChildren rec nd ks st = Inr st'" and P: "P st"
  shows "P st'"
  using run P
proof (induction ks arbitrary: st)
  case Nil
  then show ?case by simp
next
  case (Cons k rest)
  from Cons.prems(1) obtain st1 where
    call: "rec st (getChildId nd k) = Inr st1" and rest: "fixChildren rec nd rest st1 = Inr st'"
    by (auto split: sum.splits)
  from Cons.IH[OF rest rec[OF call Cons.prems(2)]] show ?case .
qed

lemma allInv_assign:
  "allInv m \<Longrightarrow> (\<And>n. spanInv n \<Longrightarrow> spanInv (f n)) \<Longrightarrow> allInv (assign m ref f)"
  unfolding allInv_def by (auto simp: assign_apply)

lemma invOrSame_allInv: "invOrSame m m' \<Longrightarrow> allInv m \<Longrightarrow> allInv m'"
  unfolding invOrSame_def allInv_def by (metis option.inject)

lemma fixOffset_allInv:
  "fixOffset ka fuel opts nest (m, acc, es) ref = Inr (m', acc', es') \<Longrightarrow> allInv m \<Longrightarrow> allInv m'"
proof (induction fuel arbitrary: m acc es ref m' acc' es')
  case 0
  then show ?case by simp
next
  case (Suc fuel)
  from Suc.prems(1) obtain nd where nd: "m ref = Some nd"
    by (auto split: option.splits)
  with Suc.prems(2) have inv: "spanInv nd" by (simp add: allInv_def)
  show ?case
  proof (cases "isNest nest nd")
    case True
    with Suc.prems(1) nd obtain c where
      sn: "stringifyNode ka fuel opts m ref 0 (offset nd + acc) (boundOffset nd + acc) = Inr (c, m')"
      by (auto split: sum.splits)
    show ?thesis
    proof (cases "pure opts")
      case True
      have "spanInv n'" if "m' x = Some n'" for x n'
      proof -
        from stringifyNode_pure_spans[OF sn True, of x] that obtain n0 where
          "m x = Some n0" "sameSpans n0 n'"
          by (cases "m x") auto
        with Suc.prems(2) show ?thesis by (auto simp: allInv_def spanInv_def sameSpans_def)
      qed
      then show ?thesis by (simp add: allInv_def)
    next
      case False
      from inv have "boundOffset nd + acc \<le> offset nd + acc" by (simp add: spanInv_def)
      from stringifyNode_invOrSame[OF sn False this] Suc.prems(2) show ?thesis
        by (blast intro: invOrSame_allInv)
    qed
  next
    case False
    define m1 where "m1 = assign m ref
                           (\<lambda>n. n\<lparr>offset := offset n + acc, boundOffset := boundOffset n + acc\<rparr>)"
    from Suc.prems(1) nd False obtain m2 where
      loop: "fixChildren (fixOffset ka fuel opts nest) nd (getChildrenKeys nd) (m1, acc, es)
               = Inr (m2, acc', es')"
      and m': "m' = assign m2 ref
                              (\<lambda>n. n\<lparr>nlength := nlength n + (acc' - acc),
                                      boundLength := boundLength n + (acc' - acc)\<rparr>)"
      by (auto simp: Let_def m1_def split: sum.splits)
    have "allInv m1"
      unfolding m1_def by (rule allInv_assign[OF Suc.prems(2)]) (simp add: spanInv_def)
    have "allInv (fst (m2, acc', es'))"
    proof (rule fixChildren_preserves[where P = "\<lambda>st. allInv (fst st)", OF _ loop])
      fix st r st'
      assume "fixOffset ka fuel opts nest st r = Inr st'" "allInv (fst st)"
      with Suc.IH[of "fst st" "fst (snd st)" "snd (snd st)" r "fst st'" "fst (snd st')" "snd (snd st')"]
      show "allInv (fst st')" by simp
    qed (use \<open>allInv m1\<close> in simp)
    then show ?thesis
      unfolding m' by (intro allInv_assign) (simp_all add: spanInv_def)
  qed
qed

lemma map_a1_root:
  "map_a1 [] = Some \<lparr>nid = [], ntype = TObject, rawValue = None, childrenKeys = [''a''],
               offset = 0, nlength = 7, boundOffset = 0, boundLength = 7\<rparr>"
  by (simp add: map_a1_def)

lemma visits_a1: "visits map_a1 [] [''a'']"
  by (rule visits_child[where m = map_a1 and ref = "[]" and key = "''a''" and r = "[''a'']", OF map_a1_root])
     (simp_all add: isIterable_def getChildrenKeys_def getChildId_def visits_self)

lemma allInv_a1: "allInv map_a1"
  by (simp add: allInv_def map_a1_def spanInv_def)


section \<open>Structural equality\<close>


lemma union_keys_set: "set (union_keys xs ys) = set xs \<union> set ys"
  by (auto simp: union_keys_def)

lemma union_keys_Nil: "union_keys xs ys = [] \<longleftrightarrow> xs = [] \<and> ys = []"
  by (metis union_keys_set set_empty Un_empty)

lemma eqChildren_char:
  assumes "\<And>key c1 c2. key \<in> set ks \<Longrightarrow> getChild m1 n1 key = Some c1 \<Longrightarrow>
             getChild m2 n2 key = Some c2 \<Longrightarrow> \<exists>b. rec c1 c2 = Inr b"
  shows "eqChildren rec m1 m2 n1 n2 ks =
           Inr (\<forall>key \<in> set ks. \<exists>c1 c2. getChild m1 n1 key = Some c1 \<and>
                  getChild m2 n2 key = Some c2 \<and> rec c1 c2 = Inr True)"
  using assms
proof (induction ks)
  case Nil
  then show ?case by simp
next
  case (Cons k ks)
  have IH: "eqChildren rec m1 m2 n1 n2 ks =
           Inr (\<forall>key \<in> set ks. \<exists>c1 c2. getChild m1 n1 key = Some c1 \<and>
                  getChild m2 n2 key = Some c2 \<and> rec c1 c2 = Inr True)"
    by (rule Cons.IH) (use Cons.prems in auto)
  show ?case
  proof (cases "getChild m1 n1 k")
    case None
    then show ?thesis by simp
  next
    case (Some c1)
    show ?thesis
    proof (cases "getChild m2 n2 k")
      case None
      with Some show ?thesis by simp
    next
      case c2: (Some c2)
      from Cons.prems[of k c1 c2] Some c2 obtain b where b: "rec c1 c2 = Inr b" by auto
      with Some c2 IH show ?thesis by (cases b) auto
    qed
  qed
qed

lemma doIsEquals_total:
  "pairDepthLE fuel m1 m2 n1 n2 \<Longrightarrow> \<exists>b. doIsEquals fuel m1 m2 n1 n2 = Inr b"
proof (induction fuel arbitrary: n1 n2)
  case 0
  then show ?case by simp
next
  case (Suc fuel)
  let ?ks = "union_keys (getChildrenKeys n1) (getChildrenKeys n2)"
  have "eqChildren (doIsEquals fuel m1 m2) m1 m2 n1 n2 ?ks =
           Inr (\<forall>key \<in> set ?ks. \<exists>c1 c2. getChild m1 n1 key = Some c1 \<and>
                  getChild m2 n2 key = Some c2 \<and> doIsEquals fuel m1 m2 c1 c2 = Inr True)"
  proof (rule eqChildren_char)
    fix key c1 c2
    assume "key \<in> set ?ks" "getChild m1 n1 key = Some c1" "getChild m2 n2 key = Some c2"
    with Suc.prems have "pairDepthLE fuel m1 m2 c1 c2" by (auto simp: list_all_iff)
    then show "\<exists>b. doIsEquals fuel m1 m2 c1 c2 = Inr b" by (rule Suc.IH)
  qed
  then show ?case by (auto simp: Let_def)
qed

lemma doIsEquals_char:
  assumes "pairDepthLE (Suc fuel) m1 m2 n1 n2"
  shows "doIsEquals (Suc fuel) m1 m2 n1 n2 =
           Inr (ntype n1 = ntype n2 \<and>
                (if childrenKeys n1 = [] \<and> childrenKeys n2 = []
                 then getRawValue n1 = getRawValue n2
                 else \<forall>key \<in> set (childrenKeys n1) \<union> set (childrenKeys n2).
                        \<exists>c1 c2. getChild m1 n1 key = Some c1 \<and> getChild m2 n2 key = Some c2 \<and>
                                doIsEquals fuel m1 m2 c1 c2 = Inr True))"
proof -
  let ?ks = "union_keys (getChildrenKeys n1) (getChildrenKeys n2)"
  have "eqChildren (doIsEquals fuel m1 m2) m1 m2 n1 n2 ?ks =
           Inr (\<forall>key \<in> set ?ks. \<exists>c1 c2. getChild m1 n1 key = Some c1 \<and>
                  getChild m2 n2 key = Some c2 \<and> doIsEquals fuel m1 m2 c1 c2 = Inr True)"
  proof (rule eqChildren_char)
    fix key c1 c2
    assume "key \<in> set ?ks" "getChild m1 n1 key = Some c1" "getChild m2 n2 key = Some c2"
    with assms have "pairDepthLE fuel m1 m2 c1 c2" by (auto simp: list_all_iff)
    then show "\<exists>b. doIsEquals fuel m1 m2 c1 c2 = Inr b" by (rule doIsEquals_total)
  qed
  then show ?thesis
    by (simp add: Let_def union_keys_set union_keys_Nil getChildrenKeys_def)
qed


lemma reorderedNode_fields:
  assumes "reorderedNode n n'"
  shows "ntype n' = ntype n" "getRawValue n' = getRawValue n" "getChildId n' key = getChildId n key"
    "set (childrenKeys n') = set (childrenKeys n)" "childrenKeys n' = [] \<longleftrightarrow> childrenKeys n = []"
proof -
  from assms show "ntype n' = ntype n" "getRawValue n' = getRawValue n"
    "getChildId n' key = getChildId n key" and s: "set (childrenKeys n') = set (childrenKeys n)"
    by (simp_all add: reorderedNode_def getRawValue_def getChildId_def)
  from s show "childrenKeys n' = [] \<longleftrightarrow> childrenKeys n = []"
    by (metis set_empty)
qed

lemma getChild_reordered:
  assumes "reordered m m'" "reorderedNode n n'"
  shows "rel_option reorderedNode (getChild m n key) (getChild m' n' key)"
  using assms(1) reorderedNode_fields(3)[OF assms(2), of key]
  by (simp add: getChild_def reordered_def)

lemma doIsEquals_reordered:
  assumes r1: "reordered m1 m1'" and r2: "reordered m2 m2'"
  shows "reorderedNode n1 n1' \<Longrightarrow> reorderedNode n2 n2' \<Longrightarrow> pairDepthLE fuel m1 m2 n1 n2 \<Longrightarrow>
         pairDepthLE fuel m1' m2' n1' n2' \<and>
         doIsEquals fuel m1' m2' n1' n2' = doIsEquals fuel m1 m2 n1 n2"
proof (induction fuel arbitrary: n1 n2 n1' n2')
  case 0
  then show ?case by simp
next
  case (Suc fuel)
  note f1 = reorderedNode_fields[OF Suc.prems(1)] and f2 = reorderedNode_fields[OF Suc.prems(2)]
  let ?K = "set (childrenKeys n1) \<union> set (childrenKeys n2)"
  have child: "pairDepthLE fuel m1' m2' c1' c2' \<and>
               doIsEquals fuel m1' m2' c1' c2' = doIsEquals fuel m1 m2 c1 c2"
    if "key \<in> ?K" "getChild m1 n1 key = Some c1" "getChild m2 n2 key = Some c2"
       "getChild m1' n1' key = Some c1'" "getChild m2' n2' key = Some c2'" for key c1 c2 c1' c2'
  proof -
    from getChild_reordered[OF r1 Suc.prems(1), of key] that have a: "reorderedNode c1 c1'" by simp
    from getChild_reordered[OF r2 Suc.prems(2), of key] that have b: "reorderedNode c2 c2'" by simp
    from Suc.prems(3) have "\<forall>key \<in> ?K. case getChild m1 n1 key of None \<Rightarrow> True
          | Some child1 \<Rightarrow> (case getChild m2 n2 key of None \<Rightarrow> True
                            | Some child2 \<Rightarrow> pairDepthLE fuel m1 m2 child1 child2)"
      by (simp add: list_all_iff union_keys_set getChildrenKeys_def)
    from this[rule_format, OF that(1)] that have "pairDepthLE fuel m1 m2 c1 c2"
      by simp
    from Suc.IH[OF a b this] show ?thesis .
  qed
  have none1: "getChild m1' n1' key = None \<longleftrightarrow> getChild m1 n1 key = None" for key
    using getChild_reordered[OF r1 Suc.prems(1), of key]
    by (cases "getChild m1 n1 key"; cases "getChild m1' n1' key") auto
  have none2: "getChild m2' n2' key = None \<longleftrightarrow> getChild m2 n2 key = None" for key
    using getChild_reordered[OF r2 Suc.prems(2), of key]
    by (cases "getChild m2 n2 key"; cases "getChild m2' n2' key") auto
  have depth': "pairDepthLE (Suc fuel) m1' m2' n1' n2'"
    unfolding pairDepthLE.simps list_all_iff
  proof
    fix key assume "key \<in> set (union_keys (getChildrenKeys n1') (getChildrenKeys n2'))"
    then have k: "key \<in> ?K" by (simp add: union_keys_set getChildrenKeys_def f1 f2)
    show "case getChild m1' n1' key of None \<Rightarrow> True
          | Some child1 \<Rightarrow> (case getChild m2' n2' key of None \<Rightarrow> True
                            | Some child2 \<Rightarrow> pairDepthLE fuel m1' m2' child1 child2)"
    proof (cases "getChild m1' n1' key")
      case None then show ?thesis by simp
    next
      case c1': (Some c1')
      show ?thesis
      proof (cases "getChild m2' n2' key")
        case None with c1' show ?thesis by simp
      next
        case c2': (Some c2')
        from c1' none1[of key] obtain c1 where c1: "getChild m1 n1 key = Some c1" by (cases "getChild m1 n1 key") auto
        from c2' none2[of key] obtain c2 where c2: "getChild m2 n2 key = Some c2" by (cases "getChild m2 n2 key") auto
        from child[OF k c1 c2 c1' c2'] c1' c2' show ?thesis by simp
      qed
    qed
  qed
  have body: "(\<exists>c1 c2. getChild m1' n1' key = Some c1 \<and> getChild m2' n2' key = Some c2 \<and>
                 doIsEquals fuel m1' m2' c1 c2 = Inr True) \<longleftrightarrow>
              (\<exists>c1 c2. getChild m1 n1 key = Some c1 \<and> getChild m2 n2 key = Some c2 \<and>
                 doIsEquals fuel m1 m2 c1 c2 = Inr True)" if k: "key \<in> ?K" for key
  proof (cases "getChild m1 n1 key")
    case None
    with none1[of key] show ?thesis by simp
  next
    case c1: (Some c1)
    show ?thesis
    proof (cases "getChild m2 n2 key")
      case None
      with none2[of key] show ?thesis by simp
    next
      case c2: (Some c2)
      from c1 none1[of key] obtain c1' where c1': "getChild m1' n1' key = Some c1'" by (cases "getChild m1' n1' key") auto
      from c2 none2[of key] obtain c2' where c2': "getChild m2' n2' key = Some c2'" by (cases "getChild m2' n2' key") auto
      from child[OF k c1 c2 c1' c2'] c1 c2 c1' c2' show ?thesis by simp
    qed
  qed
  have "doIsEquals (Suc fuel) m1' m2' n1' n2' = doIsEquals (Suc fuel) m1 m2 n1 n2"
    unfolding doIsEquals_char[OF depth'] doIsEquals_char[OF Suc.prems(3)]
    using body by (simp add: f1 f2)
  with depth' show ?case by blast
qed


lemma doIsEquals_False_key:
  assumes depth: "pairDepthLE (Suc k) m1 m2 n1 n2"
      and key: "key \<in> set (childrenKeys n1) \<union> set (childrenKeys n2)"
      and no: "\<not> (\<exists>c1 c2. getChild m1 n1 key = Some c1 \<and> getChild m2 n2 key = Some c2 \<and>
                  doIsEquals k m1 m2 c1 c2 = Inr True)"
  shows "doIsEquals (Suc k) m1 m2 n1 n2 = Inr False"
proof -
  from key have ne: "\<not> (childrenKeys n1 = [] \<and> childrenKeys n2 = [])" by auto
  from key no have "\<not> (\<forall>key \<in> set (childrenKeys n1) \<union> set (childrenKeys n2).
                        \<exists>c1 c2. getChild m1 n1 key = Some c1 \<and> getChild m2 n2 key = Some c2 \<and>
                                doIsEquals k m1 m2 c1 c2 = Inr True)"
    by blast
  with ne show ?thesis
    unfolding doIsEquals_char[OF depth] by auto
qed

lemma doIsEquals_False_below:
  assumes "corresponding m1 m2 n1 n2 d1 d2"
      and "ntype d1 \<noteq> ntype d2 \<or>
           (key \<in> set (childrenKeys d1) \<union> set (childrenKeys d2) \<and>
            (getChild m1 d1 key = None \<or> getChild m2 d2 key = None))"
  shows "pairDepthLE fuel m1 m2 n1 n2 \<Longrightarrow> doIsEquals fuel m1 m2 n1 n2 = Inr False"
  using assms
proof (induction arbitrary: fuel rule: corresponding.induct)
  case (corr_here n1 n2)
  from corr_here.prems(1) obtain k where k: "fuel = Suc k" by (cases fuel) auto
  show ?case
  proof (cases "ntype n1 \<noteq> ntype n2")
    case True
    then show ?thesis unfolding k by simp
  next
    case False
    with corr_here.prems(2) have key: "key \<in> set (childrenKeys n1) \<union> set (childrenKeys n2)"
      and miss: "getChild m1 n1 key = None \<or> getChild m2 n2 key = None" by auto
    from miss have "\<not> (\<exists>c1 c2. getChild m1 n1 key = Some c1 \<and> getChild m2 n2 key = Some c2 \<and>
                  doIsEquals k m1 m2 c1 c2 = Inr True)" by auto
    from doIsEquals_False_key[OF corr_here.prems(1)[unfolded k] key this] show ?thesis
      unfolding k .
  qed
next
  case (corr_child n1 key' c1 n2 c2 d1 d2)
  from corr_child.prems(1) obtain f where f: "fuel = Suc f" by (cases fuel) auto
  from corr_child.prems(1) have "\<forall>x \<in> set (childrenKeys n1) \<union> set (childrenKeys n2).
          case getChild m1 n1 x of None \<Rightarrow> True
          | Some child1 \<Rightarrow> (case getChild m2 n2 x of None \<Rightarrow> True
                            | Some child2 \<Rightarrow> pairDepthLE f m1 m2 child1 child2)"
    unfolding f by (simp add: list_all_iff union_keys_set getChildrenKeys_def)
  from this[rule_format, OF corr_child.hyps(3)] corr_child.hyps(1,2)
  have "pairDepthLE f m1 m2 c1 c2" by simp
  from corr_child.IH[OF this corr_child.prems(2)] have "doIsEquals f m1 m2 c1 c2 = Inr False" .
  with corr_child.hyps(1,2) have "\<not> (\<exists>a b. getChild m1 n1 key' = Some a \<and> getChild m2 n2 key' = Some b \<and>
                  doIsEquals f m1 m2 a b = Inr True)" by auto
  from doIsEquals_False_key[OF corr_child.prems(1)[unfolded f] corr_child.hyps(3) this] show ?case
    unfolding f .
qed

lemma reordered_root:
  assumes "reordered (nodeMap t) (nodeMap t')" "root t = Some r" "root t' = Some r'"
  shows "reorderedNode r r'"
  using assms by (auto simp: reordered_def root_def node_def dest!: spec[of _ rootMarker])

lemma corresponding_iff:
  "corresponding m1 m2 n1 n2 d1 d2 \<longleftrightarrow>
     (d1 = n1 \<and> d2 = n2) \<or>
     (\<exists>key c1 c2. getChild m1 n1 key = Some c1 \<and> getChild m2 n2 key = Some c2 \<and>
        key \<in> set (childrenKeys n1) \<union> set (childrenKeys n2) \<and> corresponding m1 m2 c1 c2 d1 d2)"
  by (auto elim: corresponding.cases intro: corresponding.intros)

lemma doIsEquals_agree:
  "pairDepthLE fuel m1 m2 n1 n2 \<Longrightarrow>
   doIsEquals fuel m1 m2 n1 n2 =
     Inr (\<forall>d1 d2. corresponding m1 m2 n1 n2 d1 d2 \<longrightarrow> nodesAgree m1 m2 d1 d2)"
proof (induction fuel arbitrary: n1 n2)
  case 0
  then show ?case by simp
next
  case (Suc fuel)
  let ?K = "set (childrenKeys n1) \<union> set (childrenKeys n2)"
  let ?A = "\<lambda>a b. \<forall>d1 d2. corresponding m1 m2 a b d1 d2 \<longrightarrow> nodesAgree m1 m2 d1 d2"
  have sub: "doIsEquals fuel m1 m2 c1 c2 = Inr (?A c1 c2)"
    if "key \<in> ?K" "getChild m1 n1 key = Some c1" "getChild m2 n2 key = Some c2" for key c1 c2
  proof -
    from Suc.prems have "\<forall>key \<in> ?K. case getChild m1 n1 key of None \<Rightarrow> True
          | Some child1 \<Rightarrow> (case getChild m2 n2 key of None \<Rightarrow> True
                            | Some child2 \<Rightarrow> pairDepthLE fuel m1 m2 child1 child2)"
      by (simp add: list_all_iff union_keys_set getChildrenKeys_def)
    from this[rule_format, OF that(1)] that have "pairDepthLE fuel m1 m2 c1 c2" by simp
    then show ?thesis by (rule Suc.IH)
  qed
  have unfoldA: "?A n1 n2 \<longleftrightarrow>
      nodesAgree m1 m2 n1 n2 \<and>
      (\<forall>key \<in> ?K. \<forall>c1 c2. getChild m1 n1 key = Some c1 \<and> getChild m2 n2 key = Some c2 \<longrightarrow> ?A c1 c2)"
    (is "?L \<longleftrightarrow> ?R")
  proof
    assume l: ?L
    show ?R
    proof (intro conjI ballI allI impI)
      from l show "nodesAgree m1 m2 n1 n2" by (blast intro: corr_here)
    next
      fix key c1 c2 d1 d2
      assume "key \<in> ?K" "getChild m1 n1 key = Some c1 \<and> getChild m2 n2 key = Some c2"
        "corresponding m1 m2 c1 c2 d1 d2"
      then have "corresponding m1 m2 n1 n2 d1 d2" by (auto intro: corr_child)
      with l show "nodesAgree m1 m2 d1 d2" by blast
    qed
  next
    assume r: ?R
    show ?L
    proof (intro allI impI)
      fix d1 d2 assume "corresponding m1 m2 n1 n2 d1 d2"
      then show "nodesAgree m1 m2 d1 d2"
        by (subst (asm) corresponding_iff) (use r in blast)
    qed
  qed
  show ?case
  proof (cases "childrenKeys n1 = [] \<and> childrenKeys n2 = []")
    case True
    then have "?A n1 n2 \<longleftrightarrow> nodesAgree m1 m2 n1 n2"
      unfolding unfoldA by simp
    with True show ?thesis
      unfolding doIsEquals_char[OF Suc.prems] by (simp add: nodesAgree_def)
  next
    case False
    have "(\<forall>key \<in> ?K. \<exists>c1 c2. getChild m1 n1 key = Some c1 \<and> getChild m2 n2 key = Some c2 \<and>
              doIsEquals fuel m1 m2 c1 c2 = Inr True) \<longleftrightarrow>
          (\<forall>key \<in> ?K. getChild m1 n1 key \<noteq> None \<and> getChild m2 n2 key \<noteq> None) \<and>
          (\<forall>key \<in> ?K. \<forall>c1 c2. getChild m1 n1 key = Some c1 \<and> getChild m2 n2 key = Some c2 \<longrightarrow> ?A c1 c2)"
      (is "?P \<longleftrightarrow> ?Q1 \<and> ?Q2")
    proof
      assume p: ?P
      show "?Q1 \<and> ?Q2"
      proof (intro conjI ballI allI impI)
        fix key assume k: "key \<in> ?K"
        with p show "getChild m1 n1 key \<noteq> None" "getChild m2 n2 key \<noteq> None" by auto
        fix c1 c2 d1 d2
        assume g: "getChild m1 n1 key = Some c1 \<and> getChild m2 n2 key = Some c2"
          and c: "corresponding m1 m2 c1 c2 d1 d2"
        from p k obtain a b where "getChild m1 n1 key = Some a" "getChild m2 n2 key = Some b"
          "doIsEquals fuel m1 m2 a b = Inr True" by blast
        with g have "doIsEquals fuel m1 m2 c1 c2 = Inr True" by simp
        with sub[OF k] g have "?A c1 c2" by simp
        with c show "nodesAgree m1 m2 d1 d2" by blast
      qed
    next
      assume q: "?Q1 \<and> ?Q2"
      show ?P
      proof
        fix key assume k: "key \<in> ?K"
        from q k have "getChild m1 n1 key \<noteq> None" "getChild m2 n2 key \<noteq> None" by blast+
        then obtain c1 c2 where g: "getChild m1 n1 key = Some c1" "getChild m2 n2 key = Some c2"
          by (cases "getChild m1 n1 key"; cases "getChild m2 n2 key") auto
        with q k have "?A c1 c2" by blast
        with sub[OF k g] have "doIsEquals fuel m1 m2 c1 c2 = Inr True" by simp
        with g show "\<exists>c1 c2. getChild m1 n1 key = Some c1 \<and> getChild m2 n2 key = Some c2 \<and>
              doIsEquals fuel m1 m2 c1 c2 = Inr True" by blast
      qed
    qed
    moreover have "nodesAgree m1 m2 n1 n2 \<longleftrightarrow> ntype n1 = ntype n2 \<and> ?Q1"
      using False by (auto simp: nodesAgree_def list_all_iff union_keys_set)
    ultimately show ?thesis
      unfolding doIsEquals_char[OF Suc.prems] unfoldA using False by auto
  qed
qed

text \<open>
  C4. \<open>isEquals\<close> on two trees that, walked together, are at most \<open>fuel\<close> levels deep.
  It returns false when two corresponding nodes differ in type, when a key of the union of
  their child keys has no child on one of the two sides, or when they are without child keys
  and differ in raw value; it returns true exactly when every two corresponding nodes agree
  (\<open>nodesAgree\<close>), so that, everything else agreeing, the result for two corresponding
  leaves of one type is the equality of their raw values. It returns the same on trees whose
  nodes have their child keys in another order (and other spans). On two nodes of the same
  type without child keys the comparison is the equality of the raw values. And
  \<^verbatim>\<open>{"a":1,"b":2}\<close> against \<^verbatim>\<open>{"b":2,"a":1}\<close> is true, \<^verbatim>\<open>{"a":1}\<close> against \<^verbatim>\<open>{"a":1,"b":2}\<close>
  and against \<^verbatim>\<open>{"a":2}\<close> false.
\<close>

theorem isEquals_structural:
  "(root tree1 = Some r1 \<and> root tree2 = Some r2 \<and>
    pairDepthLE fuel (nodeMap tree1) (nodeMap tree2) r1 r2 \<longrightarrow>
      (corresponding (nodeMap tree1) (nodeMap tree2) r1 r2 d1 d2 \<and>
       (ntype d1 \<noteq> ntype d2 \<or>
        (key \<in> set (childrenKeys d1) \<union> set (childrenKeys d2) \<and>
         (getChild (nodeMap tree1) d1 key = None \<or> getChild (nodeMap tree2) d2 key = None)) \<or>
        (childrenKeys d1 = [] \<and> childrenKeys d2 = [] \<and> getRawValue d1 \<noteq> getRawValue d2))
         \<longrightarrow> isEquals fuel tree1 tree2 = Inr False) \<and>
      isEquals fuel tree1 tree2 =
        Inr (\<forall>e1 e2. corresponding (nodeMap tree1) (nodeMap tree2) r1 r2 e1 e2 \<longrightarrow>
                     nodesAgree (nodeMap tree1) (nodeMap tree2) e1 e2) \<and>
      (corresponding (nodeMap tree1) (nodeMap tree2) r1 r2 d1 d2 \<and>
       ntype d1 = ntype d2 \<and> childrenKeys d1 = [] \<and> childrenKeys d2 = [] \<and>
       (\<forall>e1 e2. corresponding (nodeMap tree1) (nodeMap tree2) r1 r2 e1 e2 \<and> (e1, e2) \<noteq> (d1, d2) \<longrightarrow>
                 nodesAgree (nodeMap tree1) (nodeMap tree2) e1 e2)
         \<longrightarrow> isEquals fuel tree1 tree2 = Inr (getRawValue d1 = getRawValue d2)) \<and>
      (root tree1' = Some r1' \<and> root tree2' = Some r2' \<and>
       reordered (nodeMap tree1) (nodeMap tree1') \<and> reordered (nodeMap tree2) (nodeMap tree2')
         \<longrightarrow> isEquals fuel tree1' tree2' = isEquals fuel tree1 tree2)) \<and>
   (ntype l1 = ntype l2 \<and> childrenKeys l1 = [] \<and> childrenKeys l2 = [] \<longrightarrow>
      doIsEquals (Suc k) m1 m2 l1 l2 = Inr (getRawValue l1 = getRawValue l2)) \<and>
   isEquals 2 tree_a1b2 tree_b2a1 = Inr True \<and>
   isEquals 2 tree_a1 tree_a1b2 = Inr False \<and>
   isEquals 2 tree_a1 tree_a2 = Inr False"
proof (intro conjI impI)
  assume a: "root tree1 = Some r1 \<and> root tree2 = Some r2 \<and>
    pairDepthLE fuel (nodeMap tree1) (nodeMap tree2) r1 r2"
  let ?m1 = "nodeMap tree1" and ?m2 = "nodeMap tree2"
  from a have ie: "isEquals fuel tree1 tree2 =
        Inr (\<forall>e1 e2. corresponding ?m1 ?m2 r1 r2 e1 e2 \<longrightarrow> nodesAgree ?m1 ?m2 e1 e2)"
    by (simp add: isEquals_def doIsEquals_agree)
  then show "isEquals fuel tree1 tree2 =
        Inr (\<forall>e1 e2. corresponding ?m1 ?m2 r1 r2 e1 e2 \<longrightarrow> nodesAgree ?m1 ?m2 e1 e2)" .
  {
    assume b: "corresponding ?m1 ?m2 r1 r2 d1 d2 \<and>
       (ntype d1 \<noteq> ntype d2 \<or>
        (key \<in> set (childrenKeys d1) \<union> set (childrenKeys d2) \<and>
         (getChild ?m1 d1 key = None \<or> getChild ?m2 d2 key = None)) \<or>
        (childrenKeys d1 = [] \<and> childrenKeys d2 = [] \<and> getRawValue d1 \<noteq> getRawValue d2))"
    then have "\<not> nodesAgree ?m1 ?m2 d1 d2"
      by (auto simp: nodesAgree_def list_all_iff union_keys_set)
    with b have "\<not> (\<forall>e1 e2. corresponding ?m1 ?m2 r1 r2 e1 e2 \<longrightarrow> nodesAgree ?m1 ?m2 e1 e2)"
      by blast
    with ie show "isEquals fuel tree1 tree2 = Inr False" by simp
  }
  {
    assume b: "corresponding ?m1 ?m2 r1 r2 d1 d2 \<and>
       ntype d1 = ntype d2 \<and> childrenKeys d1 = [] \<and> childrenKeys d2 = [] \<and>
       (\<forall>e1 e2. corresponding ?m1 ?m2 r1 r2 e1 e2 \<and> (e1, e2) \<noteq> (d1, d2) \<longrightarrow>
                 nodesAgree ?m1 ?m2 e1 e2)"
    then have "ntype d1 = ntype d2" "childrenKeys d1 = []" "childrenKeys d2 = []" by blast+
    then have here: "nodesAgree ?m1 ?m2 d1 d2 \<longleftrightarrow> getRawValue d1 = getRawValue d2"
      by (simp add: nodesAgree_def)
    have "(\<forall>e1 e2. corresponding ?m1 ?m2 r1 r2 e1 e2 \<longrightarrow> nodesAgree ?m1 ?m2 e1 e2) \<longleftrightarrow>
          getRawValue d1 = getRawValue d2"
    proof
      assume "\<forall>e1 e2. corresponding ?m1 ?m2 r1 r2 e1 e2 \<longrightarrow> nodesAgree ?m1 ?m2 e1 e2"
      with b here show "getRawValue d1 = getRawValue d2" by blast
    next
      assume eq: "getRawValue d1 = getRawValue d2"
      show "\<forall>e1 e2. corresponding ?m1 ?m2 r1 r2 e1 e2 \<longrightarrow> nodesAgree ?m1 ?m2 e1 e2"
      proof (intro allI impI)
        fix e1 e2 assume c: "corresponding ?m1 ?m2 r1 r2 e1 e2"
        show "nodesAgree ?m1 ?m2 e1 e2"
        proof (cases "(e1, e2) = (d1, d2)")
          case True
          with here eq show ?thesis by simp
        next
          case False
          with b c show ?thesis by blast
        qed
      qed
    qed
    with ie show "isEquals fuel tree1 tree2 = Inr (getRawValue d1 = getRawValue d2)" by simp
  }
  {
    assume b: "root tree1' = Some r1' \<and> root tree2' = Some r2' \<and>
       reordered (nodeMap tree1) (nodeMap tree1') \<and> reordered (nodeMap tree2) (nodeMap tree2')"
    with a have "reorderedNode r1 r1'" "reorderedNode r2 r2'"
      by (auto intro: reordered_root)
    from doIsEquals_reordered[OF _ _ this, of "nodeMap tree1" "nodeMap tree1'" "nodeMap tree2" "nodeMap tree2'" fuel] a b
    show "isEquals fuel tree1' tree2' = isEquals fuel tree1 tree2"
      by (simp add: isEquals_def)
  }
next
  assume "ntype l1 = ntype l2 \<and> childrenKeys l1 = [] \<and> childrenKeys l2 = []"
  then show "doIsEquals (Suc k) m1 m2 l1 l2 = Inr (getRawValue l1 = getRawValue l2)"
    by (simp add: union_keys_def getChildrenKeys_def)
next
  show "isEquals 2 tree_a1b2 tree_b2a1 = Inr True"
    by code_simp
next
  show "isEquals 2 tree_a1 tree_a1b2 = Inr False"
    by code_simp
next
  show "isEquals 2 tree_a1 tree_a2 = Inr False"
    by code_simp
qed


lemma root_a2:
  "root tree_a2 = Some \<lparr>nid = [], ntype = TObject, rawValue = None, childrenKeys = [''a''],
               offset = 0, nlength = 7, boundOffset = 0, boundLength = 7\<rparr>"
  by (simp add: root_def node_def rootMarker_def tree_a2_def map_a2_def)

lemma root_a1:
  "root tree_a1 = Some \<lparr>nid = [], ntype = TObject, rawValue = None, childrenKeys = [''a''],
               offset = 0, nlength = 7, boundOffset = 0, boundLength = 7\<rparr>"
  by (simp add: root_def node_def rootMarker_def tree_a1_def map_a1_def)

lemma root_a1b2:
  "root tree_a1b2 = Some \<lparr>nid = [], ntype = TObject, rawValue = None, childrenKeys = [''a'', ''b''],
               offset = 0, nlength = 13, boundOffset = 0, boundLength = 13\<rparr>"
  by (simp add: root_def node_def rootMarker_def tree_a1b2_def map_a1b2_def)

lemma root_b2a1:
  "root tree_b2a1 = Some \<lparr>nid = [], ntype = TObject, rawValue = None, childrenKeys = [''b'', ''a''],
               offset = 0, nlength = 13, boundOffset = 0, boundLength = 13\<rparr>"
  by (simp add: root_def node_def rootMarker_def tree_b2a1_def map_b2a1_def)

lemma reordered_a1b2_b2a1: "reordered (nodeMap tree_a1b2) (nodeMap tree_b2a1)"
  by (auto simp: reordered_def reorderedNode_def tree_a1b2_def tree_b2a1_def map_a1b2_def map_b2a1_def)

lemma reordered_refl: "reordered m m"
  by (simp add: reordered_def reorderedNode_def option.rel_refl)

theorem isEquals_structural_witness:
  "pairDepthLE 2 (nodeMap tree_a1) (nodeMap tree_a1b2) (the (root tree_a1)) (the (root tree_a1b2)) \<and>
   getChild (nodeMap tree_a1) (the (root tree_a1)) ''b'' = None \<and>
   isEquals 2 tree_a1 tree_a1b2 = Inr False \<and>
   pairDepthLE 2 (nodeMap tree_a1b2) (nodeMap tree_a1b2) (the (root tree_a1b2)) (the (root tree_a1b2)) \<and>
   reordered (nodeMap tree_a1b2) (nodeMap tree_b2a1) \<and>
   isEquals 2 tree_a1b2 tree_b2a1 = isEquals 2 tree_a1b2 tree_a1b2 \<and>
   doIsEquals 1 Map.empty Map.empty (the (map_a1 [''a''])) (the (map_a1b2 [''a''])) = Inr True \<and>
   pairDepthLE 2 (nodeMap tree_a1) (nodeMap tree_a2) (the (root tree_a1)) (the (root tree_a2)) \<and>
   corresponding (nodeMap tree_a1) (nodeMap tree_a2) (the (root tree_a1)) (the (root tree_a2))
     (the (map_a1 [''a''])) (the (map_a2 [''a''])) \<and>
   getRawValue (the (map_a1 [''a''])) \<noteq> getRawValue (the (map_a2 [''a''])) \<and>
   isEquals 2 tree_a1 tree_a2 = Inr False"
proof -
  let ?r1 = "\<lparr>nid = [], ntype = TObject, rawValue = None, childrenKeys = [''a''],
               offset = 0, nlength = 7, boundOffset = 0, boundLength = 7\<rparr>"
  let ?r2 = "\<lparr>nid = [], ntype = TObject, rawValue = None, childrenKeys = [''a'', ''b''],
               offset = 0, nlength = 13, boundOffset = 0, boundLength = 13\<rparr>"
  let ?r3 = "\<lparr>nid = [], ntype = TObject, rawValue = None, childrenKeys = [''b'', ''a''],
               offset = 0, nlength = 13, boundOffset = 0, boundLength = 13\<rparr>"
  let ?la = "\<lparr>nid = [''a''], ntype = TNumber, rawValue = Some ''1'', childrenKeys = [],
               offset = 5, nlength = 1, boundOffset = 1, boundLength = 5\<rparr>"
  let ?lb = "\<lparr>nid = [''a''], ntype = TNumber, rawValue = Some ''2'', childrenKeys = [],
               offset = 5, nlength = 1, boundOffset = 1, boundLength = 5\<rparr>"
  have d1: "pairDepthLE 2 (nodeMap tree_a1) (nodeMap tree_a1b2) ?r1 ?r2"
    unfolding tree_a1_def tree_a1b2_def by code_simp
  have d2: "pairDepthLE 2 (nodeMap tree_a1b2) (nodeMap tree_a1b2) ?r2 ?r2"
    unfolding tree_a1b2_def by code_simp
  have d3: "pairDepthLE 2 (nodeMap tree_a1) (nodeMap tree_a2) ?r1 ?r1"
    unfolding tree_a1_def tree_a2_def by code_simp
  have miss: "getChild (nodeMap tree_a1) ?r1 ''b'' = None"
    by (simp add: getChild_def getChildId_def tree_a1_def map_a1_def)
  have la: "map_a1 [''a''] = Some ?la" "map_a1b2 [''a''] = Some ?la" "map_a2 [''a''] = Some ?lb"
    by (simp_all add: map_a1_def map_a1b2_def map_a2_def)
  have co: "corresponding (nodeMap tree_a1) (nodeMap tree_a2) ?r1 ?r1 ?la ?lb"
    by (rule corr_child[where key = "''a''" and ?c1.0 = ?la and ?c2.0 = ?lb])
       (simp_all add: getChild_def getChildId_def tree_a1_def tree_a2_def la corr_here)
  have raw: "getRawValue ?la \<noteq> getRawValue ?lb" by (simp add: getRawValue_def)
  note T1 = isEquals_structural[where ?tree1.0 = tree_a1 and ?r1.0 = ?r1 and ?tree2.0 = tree_a1b2
      and ?r2.0 = ?r2 and fuel = 2 and ?d1.0 = ?r1 and ?d2.0 = ?r2 and key = "''b''"
      and ?l1.0 = ?la and ?l2.0 = ?la and k = 0 and ?m1.0 = Map.empty and ?m2.0 = Map.empty]
  note T2 = isEquals_structural[where ?tree1.0 = tree_a1b2 and ?r1.0 = ?r2 and ?tree2.0 = tree_a1b2
      and ?r2.0 = ?r2 and fuel = 2 and ?tree1'.0 = tree_a1b2 and ?r1'.0 = ?r2
      and ?tree2'.0 = tree_b2a1 and ?r2'.0 = ?r3]
  note T3 = isEquals_structural[where ?tree1.0 = tree_a1 and ?r1.0 = ?r1 and ?tree2.0 = tree_a2
      and ?r2.0 = ?r1 and fuel = 2 and ?d1.0 = ?la and ?d2.0 = ?lb]
  from T1 root_a1 root_a1b2 d1 miss corr_here[of "nodeMap tree_a1" "nodeMap tree_a1b2" ?r1 ?r2]
  have e1: "isEquals 2 tree_a1 tree_a1b2 = Inr False" by simp
  from T1 have e3: "doIsEquals 1 Map.empty Map.empty ?la ?la = Inr True" by simp
  from T2 root_a1b2 root_b2a1 d2 reordered_a1b2_b2a1 reordered_refl[of "nodeMap tree_a1b2"]
  have e2: "isEquals 2 tree_a1b2 tree_b2a1 = isEquals 2 tree_a1b2 tree_a1b2" by simp
  from T3 root_a1 root_a2 d3 co raw
  have e4: "isEquals 2 tree_a1 tree_a2 = Inr False" by simp
  from d1 d2 d3 miss e1 e2 e3 e4 co raw reordered_a1b2_b2a1 show ?thesis
    by (simp add: root_a1 root_a1b2 root_a2 la)
qed


section \<open>Path lookup fails closed\<close>


lemma walk_append:
  "walk m nd (xs @ ys) = (case walk m nd xs of None \<Rightarrow> None | Some x \<Rightarrow> walk m x ys)"
  by (induction m nd xs rule: walk.induct) (auto split: option.splits)

lemma walk_in_map:
  "walk m nd segs = Some x \<Longrightarrow> x = nd \<or> (\<exists>r. m r = Some x)"
  by (induction m nd segs rule: walk.induct)
     (auto simp: getChild_def split: option.splits if_splits)

text \<open>
  C7. \<open>findNodeByPath\<close> fails closed. The walk over a path is the walk over a prefix
  followed by the walk over the rest, so it has no result as soon as a prefix has none; a
  key segment has no result on a node that is not an object (an array, a leaf), an index
  segment none on a node that is not an array (an object, a leaf), and either none when the
  node map holds no such child; a path that does not parse has no result. On the tree of
  \<^verbatim>\<open>{"a":{"b":{"c":"d"}}}\<close> the path \<^verbatim>\<open>a.b.c\<close> gives the string node \<^verbatim>\<open>"d"\<close>, and \<^verbatim>\<open>a.b.c.d\<close> and
  \<^verbatim>\<open>nonexistent\<close> give nothing. A node it returns is a node of the map: it creates none.
\<close>

theorem findNodeByPath_fails_closed:
  "walk m nd (xs @ ys) = (case walk m nd xs of None \<Rightarrow> None | Some x \<Rightarrow> walk m x ys) \<and>
   (walk m nd xs = None \<longrightarrow> walk m nd (xs @ ys) = None) \<and>
   (ntype nd \<noteq> TObject \<longrightarrow> walk m nd (Key k # ys) = None) \<and>
   (ntype nd \<noteq> TArray \<longrightarrow> walk m nd (Index i # ys) = None) \<and>
   (getChild m nd k = None \<longrightarrow> walk m nd (Key k # ys) = None) \<and>
   (getChild m nd (showNat i) = None \<longrightarrow> walk m nd (Index i # ys) = None) \<and>
   (parsePath path = None \<or> root t = None \<longrightarrow> findNodeByPath t path = None) \<and>
   (findNodeByPath t path = Some x \<longrightarrow> (\<exists>r. nodeMap t r = Some x)) \<and>
   map_option rawValue (findNodeByPath tree_abcd ''a.b.c'') = Some (Some (dquote @ ''d'' @ dquote)) \<and>
   findNodeByPath tree_abcd ''a.b.c.d'' = None \<and>
   findNodeByPath tree_abcd ''nonexistent'' = None"
proof -
  have 1: "walk m nd (xs @ ys) = (case walk m nd xs of None \<Rightarrow> None | Some x \<Rightarrow> walk m x ys)"
    by (rule walk_append)
  have 2: "findNodeByPath t path = Some x \<longrightarrow> (\<exists>r. nodeMap t r = Some x)"
  proof
    assume a: "findNodeByPath t path = Some x"
    then obtain r segs where r: "root t = Some r" and w: "walk (nodeMap t) r segs = Some x"
      by (auto simp: findNodeByPath_def split: option.splits)
    from walk_in_map[OF w] r show "\<exists>r. nodeMap t r = Some x"
      by (auto simp: root_def node_def)
  qed
  have 3: "map_option rawValue (findNodeByPath tree_abcd ''a.b.c'') = Some (Some (dquote @ ''d'' @ dquote))"
    by code_simp
  have 4: "findNodeByPath tree_abcd ''a.b.c.d'' = None" by code_simp
  have 5: "findNodeByPath tree_abcd ''nonexistent'' = None" by code_simp
  have 6: "parsePath path = None \<or> root t = None \<longrightarrow> findNodeByPath t path = None"
    by (auto simp: findNodeByPath_def split: option.splits)
  from 1 2 3 4 5 6 show ?thesis by simp
qed

theorem findNodeByPath_fails_closed_witness:
  "walk map_abcd (the (map_abcd [])) [Key ''a'', Key ''b'', Key ''c''] \<noteq> None \<and>
   ntype (the (walk map_abcd (the (map_abcd [])) [Key ''a'', Key ''b'', Key ''c''])) = TString \<and>
   walk map_abcd (the (map_abcd [])) ([Key ''a'', Key ''b'', Key ''c''] @ [Key ''d'']) = None \<and>
   getChild map_abcd (the (map_abcd [])) ''nonexistent'' = None \<and>
   walk map_abcd (the (map_abcd [])) [Key ''nonexistent''] = None \<and>
   walk map_abcd (the (map_abcd [])) [Index 0] = None \<and>
   parsePath ''a[0'' = None \<and> findNodeByPath tree_abcd ''a[0'' = None \<and>
   (\<exists>x r. findNodeByPath tree_abcd ''a.b'' = Some x \<and> nodeMap tree_abcd r = Some x)"
proof -
  let ?r = "the (map_abcd [])"
  have w: "walk map_abcd ?r [Key ''a'', Key ''b'', Key ''c''] =
             Some \<lparr>nid = [''a'', ''b'', ''c''], ntype = TString,
               rawValue = Some (dquote @ ''d'' @ dquote), childrenKeys = [],
               offset = 15, nlength = 3, boundOffset = 11, boundLength = 7\<rparr>"
    by (simp add: map_abcd_def getChild_def getChildId_def)
  have ty: "ntype ?r = TObject" by (simp add: map_abcd_def)
  have miss: "getChild map_abcd ?r ''nonexistent'' = None"
    by (simp add: map_abcd_def getChild_def getChildId_def)
  have pp: "parsePath ''a[0'' = None" by code_simp
  have "isOk (case findNodeByPath tree_abcd ''a.b'' of None \<Rightarrow> Inl TypeError | Some x \<Rightarrow> Inr x)"
    by code_simp
  then obtain x where x: "findNodeByPath tree_abcd ''a.b'' = Some x"
    by (cases "findNodeByPath tree_abcd ''a.b''") (auto simp: isOk_def)
  note T = findNodeByPath_fails_closed[where m = map_abcd and nd = ?r and k = "''nonexistent''"
      and i = 0 and ys = "[]" and t = tree_abcd and path = "''a[0''"]
  note T2 = findNodeByPath_fails_closed[where m = map_abcd and nd = ?r
      and xs = "[Key ''a'', Key ''b'', Key ''c'']" and ys = "[Key ''d'']" and k = "''d''"]
  note T3 = findNodeByPath_fails_closed[where t = tree_abcd and path = "''a.b''" and x = x]
  from T miss ty pp have a: "walk map_abcd ?r [Key ''nonexistent''] = None"
    "walk map_abcd ?r [Index 0] = None" "findNodeByPath tree_abcd ''a[0'' = None"
    by simp_all
  from T2 w have b: "walk map_abcd ?r ([Key ''a'', Key ''b'', Key ''c''] @ [Key ''d'']) = None"
    by simp
  from T3 x have c: "\<exists>r. nodeMap tree_abcd r = Some x" by simp
  from a b c w miss pp x show ?thesis by simp
qed

section \<open>The offset lookup returns the innermost node\<close>



lemma those_Some_nth:
  "those xs = Some ys \<Longrightarrow> length ys = length xs \<and> (\<forall>i<length xs. xs ! i = Some (ys ! i))"
proof (induction xs arbitrary: ys)
  case Nil
  then show ?case by simp
next
  case (Cons x xs)
  from Cons.prems obtain y ys' where x: "x = Some y" and t: "those xs = Some ys'" and ys: "ys = y # ys'"
    by (auto split: option.splits)
  from Cons.IH[OF t] show ?case
    by (auto simp: x ys nth_Cons split: nat.splits)
qed

lemma spansIncrease_mono:
  assumes "spansIncrease cs" "i \<le> j" "j < length cs"
  shows "boundOffset (cs ! i) \<le> boundOffset (cs ! j)" "boundEnd (cs ! i) \<le> boundEnd (cs ! j)"
proof -
  from assms(1) have nn: "\<And>k. k < length cs \<Longrightarrow> 0 \<le> boundLength (cs ! k)"
    and sw: "sorted_wrt (\<lambda>c d. boundEnd c \<le> boundOffset d) cs"
    by (auto simp: spansIncrease_def list_all_length)
  show "boundOffset (cs ! i) \<le> boundOffset (cs ! j)"
  proof (cases "i = j")
    case True then show ?thesis by simp
  next
    case False
    with assms have "i < j" by simp
    from sorted_wrt_nth_less[OF sw this assms(3)] nn[of i] assms show ?thesis
      by (simp add: boundEnd_def)
  qed
  show "boundEnd (cs ! i) \<le> boundEnd (cs ! j)"
  proof (cases "i = j")
    case True then show ?thesis by simp
  next
    case False
    with assms have "i < j" by simp
    from sorted_wrt_nth_less[OF sw this assms(3)] nn[of j] assms show ?thesis
      by (simp add: boundEnd_def)
  qed
qed


lemma bsearch_correct:
  assumes cs: "\<And>i. i < length keys \<Longrightarrow> getChild m nd (keys ! i) = Some (cs ! i)"
      and len: "length cs = length keys"
      and inc: "spansIncrease cs"
  shows "0 \<le> left \<Longrightarrow> right < int (length keys) \<Longrightarrow>
         (\<forall>i. i < nat left \<longrightarrow> i < length cs \<longrightarrow> \<not> inBound off (cs ! i)) \<Longrightarrow>
         (\<forall>i. nat (right + 1) \<le> i \<longrightarrow> i < length cs \<longrightarrow> \<not> inBound off (cs ! i)) \<Longrightarrow>
         (bsearch rec m off nd keys left right = Inr (Some nd) \<and>
            (\<forall>i < length cs. \<not> inBound off (cs ! i))) \<or>
         (\<exists>i < length cs. inBound off (cs ! i) \<and>
            bsearch rec m off nd keys left right = picked rec (cs ! i))"
proof (induction "nat (right - left + 1)" arbitrary: left right rule: less_induct)
  case less
  show ?case
  proof (cases "left \<le> right")
    case False
    then have "bsearch rec m off nd keys left right = Inr (Some nd)"
      by (subst bsearch.simps) simp
    moreover have "\<not> inBound off (cs ! i)" if "i < length cs" for i
    proof (cases "i < nat left")
      case True
      with less.prems(3) that show ?thesis by blast
    next
      case F: False
      with False less.prems(1) have "nat (right + 1) \<le> i" by linarith
      with less.prems(4) that show ?thesis by blast
    qed
    ultimately show ?thesis by blast
  next
    case True
    define mid where "mid = (left + right) div 2"
    from True less.prems(1,2) have mid: "left \<le> mid" "mid \<le> right" "0 \<le> mid" "mid < int (length keys)"
      unfolding mid_def by linarith+
    then have midn: "nat mid < length keys" by linarith
    let ?child = "cs ! nat mid"
    from cs[OF midn] have gc: "getChild m nd (keys ! nat mid) = Some ?child" .
    show ?thesis
    proof (cases "inBound off ?child")
      case ib: True
      have "bsearch rec m off nd keys left right = picked rec ?child"
        by (subst bsearch.simps)
           (use True mid gc ib in \<open>simp add: Let_def picked_def mid_def[symmetric] split: sum.splits option.splits\<close>)
      with ib midn len show ?thesis by auto
    next
      case nib: False
      show ?thesis
      proof (cases "boundOffset ?child + boundLength ?child < off")
        case lt: True
        have step: "bsearch rec m off nd keys left right = bsearch rec m off nd keys (mid + 1) right"
          by (subst bsearch.simps)
             (use True mid gc nib lt in \<open>simp add: Let_def mid_def[symmetric]\<close>)
        have dec: "nat (right - (mid + 1) + 1) < nat (right - left + 1)"
          using mid True by linarith
        have p3: "\<forall>i. i < nat (mid + 1) \<longrightarrow> i < length cs \<longrightarrow> \<not> inBound off (cs ! i)"
        proof (intro allI impI)
          fix i assume i: "i < nat (mid + 1)" "i < length cs"
          then have "i \<le> nat mid" using mid by linarith
          from spansIncrease_mono(2)[OF inc this] midn len
          have "boundEnd (cs ! i) \<le> boundEnd ?child" by simp
          with lt show "\<not> inBound off (cs ! i)" by (simp add: inBound_def boundEnd_def)
        qed
        from less.hyps[OF dec _ less.prems(2) p3 less.prems(4)] mid
        show ?thesis unfolding step by simp
      next
        case ge: False
        have step: "bsearch rec m off nd keys left right = bsearch rec m off nd keys left (mid - 1)"
          by (subst bsearch.simps)
             (use True mid gc nib ge in \<open>simp add: Let_def mid_def[symmetric]\<close>)
        have dec: "nat ((mid - 1) - left + 1) < nat (right - left + 1)"
          using mid True by linarith
        from nib ge have start: "off \<le> boundOffset ?child" by (simp add: inBound_def)
        have p4: "\<forall>i. nat ((mid - 1) + 1) \<le> i \<longrightarrow> i < length cs \<longrightarrow> \<not> inBound off (cs ! i)"
        proof (intro allI impI)
          fix i assume i: "nat ((mid - 1) + 1) \<le> i" "i < length cs"
          then have "nat mid \<le> i" by simp
          from spansIncrease_mono(1)[OF inc this i(2)]
          have "boundOffset ?child \<le> boundOffset (cs ! i)" .
          with start show "\<not> inBound off (cs ! i)" by (simp add: inBound_def)
        qed
        have r: "mid - 1 < int (length keys)" using mid by linarith
        from less.hyps[OF dec less.prems(1) r less.prems(3) p4]
        show ?thesis unfolding step by simp
      qed
    qed
  qed
qed


lemma treeOk_children:
  assumes "treeOk (Suc k) m nd"
  shows "\<exists>cs. length cs = length (getChildrenKeys nd) \<and>
    (\<forall>i < length (getChildrenKeys nd). getChild m nd (getChildrenKeys nd ! i) = Some (cs ! i)) \<and>
    spansIncrease cs \<and> (\<forall>i < length cs. treeOk k m (cs ! i))"
proof -
  from assms obtain cs where t: "those (childrenOf m nd) = Some cs" and inc: "spansIncrease cs"
    and ok: "list_all (treeOk k m) cs"
    by (auto split: option.splits)
  from those_Some_nth[OF t] have "length cs = length (getChildrenKeys nd)"
    and "\<forall>i < length (getChildrenKeys nd). getChild m nd (getChildrenKeys nd ! i) = Some (cs ! i)"
    by (auto simp: childrenOf_def)
  moreover from ok have "\<forall>i < length cs. treeOk k m (cs ! i)"
    by (simp add: list_all_length)
  ultimately show ?thesis using inc by blast
qed

lemma noChildInBound_iff:
  assumes "length cs = length (getChildrenKeys nd)"
    and "\<And>i. i < length (getChildrenKeys nd) \<Longrightarrow> getChild m nd (getChildrenKeys nd ! i) = Some (cs ! i)"
  shows "noChildInBound m off nd \<longleftrightarrow> (\<forall>i < length cs. \<not> inBound off (cs ! i))"
  using assms by (simp add: noChildInBound_def childrenOf_def list_all_length)

lemma inBoundPath_first: "inBoundPath m off nd x \<Longrightarrow> inBound off nd"
  by (induction rule: inBoundPath.induct) auto

lemma doFind_correct:
  "treeOk fuel m nd \<Longrightarrow>
     (\<not> inBound off nd \<longrightarrow> doFind fuel m off nd = Inr None) \<and>
     (inBound off nd \<longrightarrow> (\<exists>x. doFind fuel m off nd = Inr (Some x) \<and> innermostAt m off nd x))"
proof (induction fuel arbitrary: nd)
  case 0
  then show ?case by simp
next
  case (Suc k)
  let ?keys = "getChildrenKeys nd"
  from treeOk_children[OF Suc.prems] obtain cs where len: "length cs = length ?keys"
    and cs': "\<forall>i < length ?keys. getChild m nd (?keys ! i) = Some (cs ! i)"
    and inc: "spansIncrease cs" and ok': "\<forall>i < length cs. treeOk k m (cs ! i)"
    by blast
  from cs' have cs: "\<And>i. i < length ?keys \<Longrightarrow> getChild m nd (?keys ! i) = Some (cs ! i)" by blast
  from ok' have ok: "\<And>i. i < length cs \<Longrightarrow> treeOk k m (cs ! i)" by blast
  show ?case
  proof (intro conjI impI)
    assume "\<not> inBound off nd"
    then show "doFind (Suc k) m off nd = Inr None" by simp
  next
    assume ib: "inBound off nd"
    then have df: "doFind (Suc k) m off nd =
        bsearch (doFind k m off) m off nd ?keys 0 (int (length ?keys) - 1)"
      by (simp add: Let_def)
    from bsearch_correct[of ?keys m nd cs 0 "int (length ?keys) - 1" off "doFind k m off", OF cs len inc]
    consider (none) "doFind (Suc k) m off nd = Inr (Some nd)" "\<forall>i < length cs. \<not> inBound off (cs ! i)"
      | (child) i where "i < length cs" "inBound off (cs ! i)"
          "doFind (Suc k) m off nd = picked (doFind k m off) (cs ! i)"
      unfolding df using len by auto
    then show "\<exists>x. doFind (Suc k) m off nd = Inr (Some x) \<and> innermostAt m off nd x"
    proof cases
      case none
      from none(2) noChildInBound_iff[OF len cs] have "noChildInBound m off nd" by simp
      with ib none(1) show ?thesis
        by (auto simp: innermostAt_def intro: path_here)
    next
      case (child i)
      from Suc.IH[OF ok[OF child(1)]] child(2) obtain x where
        x: "doFind k m off (cs ! i) = Inr (Some x)" "innermostAt m off (cs ! i) x" by blast
      from child(1) len have k: "?keys ! i \<in> set ?keys" by simp
      from child(1) len cs have g: "getChild m nd (?keys ! i) = Some (cs ! i)" by simp
      from x(2) have "inBoundPath m off nd x"
        unfolding innermostAt_def by (auto intro: path_down[OF ib k g])
      with x child(3) show ?thesis by (simp add: picked_def innermostAt_def)
    qed
  qed
qed

lemma spansIncrease_one_inBound:
  assumes inc: "spansIncrease cs" and i: "i < length cs" and j: "j < length cs"
      and bi: "inBound off (cs ! i)" and bj: "inBound off (cs ! j)"
  shows "i = j"
proof -
  from inc have sw: "sorted_wrt (\<lambda>c d. boundEnd c \<le> boundOffset d) cs"
    by (simp add: spansIncrease_def)
  have no: False if "a < b" "b < length cs" "inBound off (cs ! a)" "inBound off (cs ! b)" for a b
    using sorted_wrt_nth_less[OF sw that(1,2)] that(3,4) by (simp add: inBound_def boundEnd_def)
  show ?thesis
  proof (rule ccontr)
    assume "i \<noteq> j"
    then consider "i < j" | "j < i" by linarith
    then show False using no i j bi bj by cases blast+
  qed
qed

lemma doFind_unique:
  "treeOk fuel m nd \<Longrightarrow> innermostAt m off nd y \<Longrightarrow> doFind fuel m off nd = Inr (Some y)"
proof (induction fuel arbitrary: nd)
  case 0
  then show ?case by simp
next
  case (Suc k)
  let ?keys = "getChildrenKeys nd"
  from treeOk_children[OF Suc.prems(1)] obtain cs where len: "length cs = length ?keys"
    and cs': "\<forall>i < length ?keys. getChild m nd (?keys ! i) = Some (cs ! i)"
    and inc: "spansIncrease cs" and ok': "\<forall>i < length cs. treeOk k m (cs ! i)"
    by blast
  from cs' have cs: "\<And>i. i < length ?keys \<Longrightarrow> getChild m nd (?keys ! i) = Some (cs ! i)" by blast
  from ok' have ok: "\<And>i. i < length cs \<Longrightarrow> treeOk k m (cs ! i)" by blast
  from Suc.prems(2) have path: "inBoundPath m off nd y" and inner: "noChildInBound m off y"
    by (simp_all add: innermostAt_def)
  from inBoundPath_first[OF path] have ib: "inBound off nd" .
  then have df: "doFind (Suc k) m off nd =
      bsearch (doFind k m off) m off nd ?keys 0 (int (length ?keys) - 1)"
    by (simp add: Let_def)
  from bsearch_correct[of ?keys m nd cs 0 "int (length ?keys) - 1" off "doFind k m off", OF cs len inc]
  consider (none) "doFind (Suc k) m off nd = Inr (Some nd)" "\<forall>i < length cs. \<not> inBound off (cs ! i)"
    | (child) i where "i < length cs" "inBound off (cs ! i)"
        "doFind (Suc k) m off nd = picked (doFind k m off) (cs ! i)"
    unfolding df using len by auto
  then show ?case
  proof cases
    case none
    from path show ?thesis
    proof (cases rule: inBoundPath.cases)
      case path_here
      with none(1) show ?thesis by simp
    next
      case (path_down key c)
      from path_down(2) obtain j where j: "j < length ?keys" "?keys ! j = key"
        by (auto simp: in_set_conv_nth)
      with cs[OF j(1)] path_down(3) have "c = cs ! j" by simp
      with inBoundPath_first[OF path_down(4)] none(2) j(1) len show ?thesis by auto
    qed
  next
    case (child i)
    from path show ?thesis
    proof (cases rule: inBoundPath.cases)
      case path_here
      with inner noChildInBound_iff[OF len cs] child(1,2) show ?thesis by auto
    next
      case (path_down key c)
      from path_down(2) obtain j where j: "j < length ?keys" "?keys ! j = key"
        by (auto simp: in_set_conv_nth)
      with cs[OF j(1)] path_down(3) have c: "c = cs ! j" by simp
      from spansIncrease_one_inBound[OF inc child(1) _ child(2), of j] j(1) len
        inBoundPath_first[OF path_down(4)] c
      have "i = j" by simp
      with c path_down(4) inner have "innermostAt m off (cs ! i) y"
        by (simp add: innermostAt_def)
      from Suc.IH[OF ok[OF child(1)] this] child(3) show ?thesis
        by (simp add: picked_def)
    qed
  qed
qed


lemma treeOk_child:
  assumes ok: "treeOk (Suc k) m nd" and key: "key \<in> set (getChildrenKeys nd)"
      and gc: "getChild m nd key = Some c"
  shows "treeOk k m c \<and> boundOffset nd \<le> boundOffset c \<and> boundEnd c \<le> boundEnd nd"
proof -
  from ok obtain cs where t: "those (childrenOf m nd) = Some cs"
    and nest: "list_all (\<lambda>c. boundOffset nd \<le> boundOffset c \<and> boundEnd c \<le> boundEnd nd) cs"
    and sub: "list_all (treeOk k m) cs"
    by (auto split: option.splits)
  from key obtain j where j: "j < length (getChildrenKeys nd)" "getChildrenKeys nd ! j = key"
    by (auto simp: in_set_conv_nth)
  from those_Some_nth[OF t] j gc have "j < length cs" "cs ! j = c"
    by (auto simp: childrenOf_def)
  with nest sub show ?thesis by (auto simp: list_all_length)
qed

lemma descends_treeOk:
  "descends m nd y \<Longrightarrow> treeOk k m nd \<Longrightarrow> \<exists>k'. treeOk k' m y"
proof (induction arbitrary: k rule: descends.induct)
  case (descends_self nd)
  then show ?case by blast
next
  case (descends_child key nd c x)
  from descends_child.prems obtain j where "k = Suc j" by (cases k) auto
  with treeOk_child[OF _ descends_child.hyps(1,2)] descends_child.prems
  have "treeOk j m c" by blast
  then show ?case by (rule descends_child.IH)
qed

lemma descends_inBoundPath:
  "descends m nd y \<Longrightarrow> treeOk k m nd \<Longrightarrow> inBound off y \<Longrightarrow> inBoundPath m off nd y"
proof (induction arbitrary: k rule: descends.induct)
  case (descends_self nd)
  then show ?case by (auto intro: path_here)
next
  case (descends_child key nd c x)
  from descends_child.prems obtain j where "k = Suc j" by (cases k) auto
  with treeOk_child[OF _ descends_child.hyps(1,2)] descends_child.prems
  have c: "treeOk j m c" "boundOffset nd \<le> boundOffset c" "boundEnd c \<le> boundEnd nd" by blast+
  from descends_child.IH[OF c(1) descends_child.prems(2)] have p: "inBoundPath m off c x" .
  from inBoundPath_first[OF p] c(2,3) have "inBound off nd"
    by (simp add: inBound_def boundEnd_def)
  then show ?case by (rule path_down[OF _ descends_child.hyps(1,2) p])
qed

lemma inBoundPath_trans:
  "inBoundPath m off a b \<Longrightarrow> inBoundPath m off b c \<Longrightarrow> inBoundPath m off a c"
  by (induction rule: inBoundPath.induct) (auto intro: path_down)

lemma inBoundPath_descends: "inBoundPath m off a b \<Longrightarrow> descends m a b"
  by (induction rule: inBoundPath.induct) (auto intro: descends.intros)

lemma inBoundPath_last: "inBoundPath m off a b \<Longrightarrow> inBound off b"
  by (induction rule: inBoundPath.induct) auto

text \<open>
  C1, as the code has it. On a valid tree that is \<open>treeOk\<close> from the root (every child key
  resolves, the children's bound spans increase without overlap along \<open>childrenKeys\<close> and
  lie within the bound span of their parent) \<open>findNodeAtOffset\<close> returns no result when the
  root's bound span does not contain the offset, and then no node of the tree contains it;
  otherwise it returns the innermost node whose bound span contains the offset: a node of
  the tree that contains it, has no child that contains it, and below every node of the tree
  that contains it. The result is tagged \<open>node\<close> when it is a graph node, else \<open>value\<close> when
  the offset is within the node's own span and \<open>key\<close> when it is not.
\<close>

theorem findNodeAtOffset_innermost:
  assumes "valid t" and "root t = Some r" and "treeOk fuel (nodeMap t) r"
  shows "(\<not> inBound off r \<longrightarrow>
            findNodeAtOffset fuel t off = Inr None \<and>
            (\<forall>y. descends (nodeMap t) r y \<longrightarrow> \<not> inBound off y)) \<and>
         (inBound off r \<longrightarrow>
            (\<exists>x. findNodeAtOffset fuel t off = Inr (Some (x, pointType off x)) \<and>
                 descends (nodeMap t) r x \<and> inBound off x \<and> noChildInBound (nodeMap t) off x \<and>
                 (\<forall>y. descends (nodeMap t) r y \<and> inBound off y \<longrightarrow> descends (nodeMap t) y x)))"
proof (intro conjI impI allI)
  assume "\<not> inBound off r"
  with doFind_correct[OF assms(3), of off] assms(1,2)
  show "findNodeAtOffset fuel t off = Inr None"
    by (simp add: findNodeAtOffset_def)
next
  fix y assume nb: "\<not> inBound off r" and d: "descends (nodeMap t) r y"
  show "\<not> inBound off y"
  proof
    assume "inBound off y"
    from inBoundPath_first[OF descends_inBoundPath[OF d assms(3) this]] nb show False by simp
  qed
next
  assume "inBound off r"
  with doFind_correct[OF assms(3), of off] obtain x where
    df: "doFind fuel (nodeMap t) off r = Inr (Some x)" and inn: "innermostAt (nodeMap t) off r x"
    by blast
  from inn have px: "inBoundPath (nodeMap t) off r x" and nc: "noChildInBound (nodeMap t) off x"
    by (simp_all add: innermostAt_def)
  have anc: "descends (nodeMap t) y x" if y: "descends (nodeMap t) r y \<and> inBound off y" for y
  proof -
    from y have d: "descends (nodeMap t) r y" and ib: "inBound off y" by simp_all
    from descends_inBoundPath[OF d assms(3) ib] have py: "inBoundPath (nodeMap t) off r y" .
    from descends_treeOk[OF d assms(3)] obtain k' where "treeOk k' (nodeMap t) y" by blast
    from doFind_correct[OF this, of off] ib obtain x' where
      "innermostAt (nodeMap t) off y x'" by blast
    then have p': "inBoundPath (nodeMap t) off y x'" and n': "noChildInBound (nodeMap t) off x'"
      by (simp_all add: innermostAt_def)
    from inBoundPath_trans[OF py p'] n' have "innermostAt (nodeMap t) off r x'"
      by (simp add: innermostAt_def)
    from doFind_unique[OF assms(3) this] df have "x' = x" by simp
    with inBoundPath_descends[OF p'] show ?thesis by simp
  qed
  from df assms(1,2) have "findNodeAtOffset fuel t off = Inr (Some (x, pointType off x))"
    by (auto simp: findNodeAtOffset_def pointType_def)
  with inBoundPath_descends[OF px] inBoundPath_last[OF px] nc anc
  show "\<exists>x. findNodeAtOffset fuel t off = Inr (Some (x, pointType off x)) \<and>
                 descends (nodeMap t) r x \<and> inBound off x \<and> noChildInBound (nodeMap t) off x \<and>
                 (\<forall>y. descends (nodeMap t) r y \<and> inBound off y \<longrightarrow> descends (nodeMap t) y x)"
    by blast
qed

theorem findNodeAtOffset_innermost_witness:
  "valid tree_a1 \<and> treeOk 2 (nodeMap tree_a1) (the (root tree_a1)) \<and>
   findNodeAtOffset 2 tree_a1 6 = Inr (Some (the (map_a1 [''a'']), TypeValue)) \<and>
   findNodeAtOffset 2 tree_a1 3 = Inr (Some (the (map_a1 [''a'']), TypeKey)) \<and>
   findNodeAtOffset 2 tree_a1 1 = Inr (Some (the (root tree_a1), TypeNode)) \<and>
   findNodeAtOffset 2 tree_a1 8 = Inr None \<and>
   descends (nodeMap tree_a1) (the (root tree_a1)) (the (map_a1 [''a''])) \<and>
   inBound 6 (the (root tree_a1)) \<and> inBound 6 (the (map_a1 [''a''])) \<and>
   \<not> inBound 1 (the (map_a1 [''a'']))"
proof -
  let ?r = "\<lparr>nid = [], ntype = TObject, rawValue = None, childrenKeys = [''a''],
               offset = 0, nlength = 7, boundOffset = 0, boundLength = 7\<rparr>"
  let ?a = "\<lparr>nid = [''a''], ntype = TNumber, rawValue = Some ''1'', childrenKeys = [],
               offset = 5, nlength = 1, boundOffset = 1, boundLength = 5\<rparr>"
  have v: "valid tree_a1"
    by (simp add: valid_def root_def node_def rootMarker_def tree_a1_def map_a1_def hasError_def)
  have r: "root tree_a1 = Some ?r"
    by (simp add: root_def node_def rootMarker_def tree_a1_def map_a1_def)
  have a: "map_a1 [''a''] = Some ?a" by (simp add: map_a1_def)
  have nm: "nodeMap tree_a1 = map_a1" by (simp add: tree_a1_def)
  have ok: "treeOk 2 (nodeMap tree_a1) ?r"
    unfolding nm by code_simp
  have ga: "getChild map_a1 ?r ''a'' = Some ?a"
    by (simp add: getChild_def getChildId_def map_a1_def)
  have da: "descends map_a1 ?r ?a"
    by (rule descends_child[where key = "''a''" and c = ?a, OF _ ga])
       (simp_all add: getChildrenKeys_def descends_self)
  have leaf: "descends map_a1 ?a y \<longleftrightarrow> y = ?a" for y
    by (auto elim: descends.cases intro: descends_self simp: getChildrenKeys_def)
  have up: "\<not> descends map_a1 ?a ?r"
    by (simp add: leaf)
  note T = findNodeAtOffset_innermost[OF v r ok, unfolded nm]
  have ib: "inBound 6 ?r" "inBound 6 ?a" "inBound 3 ?r" "inBound 3 ?a" "inBound 1 ?r"
    "\<not> inBound 1 ?a" "\<not> inBound 8 ?r"
    by (simp_all add: inBound_def)
  from T[of 6] ib obtain x where x: "findNodeAtOffset 2 tree_a1 6 = Inr (Some (x, pointType 6 x))"
    "\<forall>y. descends map_a1 ?r y \<and> inBound 6 y \<longrightarrow> descends map_a1 y x" by blast
  from x(2) da ib have "descends map_a1 ?a x" by blast
  with leaf have "x = ?a" by simp
  with x(1) have f6: "findNodeAtOffset 2 tree_a1 6 = Inr (Some (?a, TypeValue))"
    by (simp add: pointType_def isGraphNode_def isRoot_def hasChildren_def rootMarker_def)
  from T[of 3] ib obtain x3 where x3: "findNodeAtOffset 2 tree_a1 3 = Inr (Some (x3, pointType 3 x3))"
    "\<forall>y. descends map_a1 ?r y \<and> inBound 3 y \<longrightarrow> descends map_a1 y x3" by blast
  from x3(2) da ib have "descends map_a1 ?a x3" by blast
  with leaf have "x3 = ?a" by simp
  with x3(1) have f3: "findNodeAtOffset 2 tree_a1 3 = Inr (Some (?a, TypeKey))"
    by (simp add: pointType_def isGraphNode_def isRoot_def hasChildren_def rootMarker_def)
  from T[of 1] ib obtain x1 where x1: "findNodeAtOffset 2 tree_a1 1 = Inr (Some (x1, pointType 1 x1))"
    "descends map_a1 ?r x1" "inBound 1 x1" by blast
  from x1(2) have "x1 = ?r \<or> x1 = ?a"
    by (cases rule: descends.cases) (auto simp: getChildrenKeys_def ga leaf)
  with x1(3) ib have "x1 = ?r" by auto
  with x1(1) have f1: "findNodeAtOffset 2 tree_a1 1 = Inr (Some (?r, TypeNode))"
    by (simp add: pointType_def isGraphNode_def isRoot_def hasChildren_def rootMarker_def)
  from T[of 8] ib have f8: "findNodeAtOffset 2 tree_a1 8 = Inr None"
    by simp
  from v ok f6 f3 f1 f8 da ib show ?thesis by (simp add: r a nm)
qed

text \<open>
  C1 as stated, for every valid tree, fails. \<open>tree_ba_sorted\<close> is valid and its children are
  not in the order of their spans: at offset 3, inside the member \<open>a\<close>, the lookup returns
  the root tagged \<open>node\<close>, though the bound span of the child \<open>a\<close> contains the offset; the
  binary search looked at \<open>b\<close> only. \<open>tree_un\<close> is valid, its children are in the order of
  their spans, and the node \<open>x\<close> below \<open>a\<close> lies outside \<open>a\<close>: at offset 8 the lookup returns
  \<open>b\<close>, tagged \<open>key\<close>, though \<open>x\<close>, one level deeper and without children, contains the
  offset as well; the descent never entered \<open>a\<close>.
\<close>

theorem findNodeAtOffset_not_innermost:
  "valid tree_ba_sorted \<and>
   findNodeAtOffset 3 tree_ba_sorted 3 = Inr (Some (the (root tree_ba_sorted), TypeNode)) \<and>
   getChild (nodeMap tree_ba_sorted) (the (root tree_ba_sorted)) ''a'' = map_ba_sorted [''a''] \<and>
   map_ba_sorted [''a''] \<noteq> None \<and>
   inBound 3 (the (map_ba_sorted [''a''])) \<and>
   valid tree_un \<and>
   findNodeAtOffset 3 tree_un 8 = Inr (Some (the (map_un [''b'']), TypeKey)) \<and>
   getChild (nodeMap tree_un) (the (root tree_un)) ''a'' = map_un [''a''] \<and>
   getChild (nodeMap tree_un) (the (map_un [''a''])) ''x'' = map_un [''a'', ''x''] \<and>
   map_un [''a'', ''x''] \<noteq> None \<and>
   inBound 8 (the (map_un [''a'', ''x''])) \<and>
   childrenKeys (the (map_un [''a'', ''x''])) = [] \<and>
   childrenKeys (the (map_un [''b''])) = []"
proof -
  have v: "valid tree_ba_sorted"
    by (simp add: valid_def root_def node_def rootMarker_def tree_ba_sorted_def map_ba_sorted_def hasError_def)
  have f: "findNodeAtOffset 3 tree_ba_sorted 3 = Inr (Some (the (root tree_ba_sorted), TypeNode))"
    by code_simp
  have g: "getChild (nodeMap tree_ba_sorted) (the (root tree_ba_sorted)) ''a'' = map_ba_sorted [''a'']"
    by (simp add: getChild_def getChildId_def root_def node_def rootMarker_def tree_ba_sorted_def map_ba_sorted_def)
  have ib: "map_ba_sorted [''a''] \<noteq> None" "inBound 3 (the (map_ba_sorted [''a'']))"
    by (simp_all add: inBound_def map_ba_sorted_def)
  have v2: "valid tree_un"
    by (simp add: valid_def root_def node_def rootMarker_def tree_un_def map_un_def hasError_def)
  have f2: "findNodeAtOffset 3 tree_un 8 = Inr (Some (the (map_un [''b'']), TypeKey))"
    by code_simp
  have g2: "getChild (nodeMap tree_un) (the (root tree_un)) ''a'' = map_un [''a'']"
    "getChild (nodeMap tree_un) (the (map_un [''a''])) ''x'' = map_un [''a'', ''x'']"
    by (simp_all add: getChild_def getChildId_def root_def node_def rootMarker_def tree_un_def map_un_def)
  have x2: "map_un [''a'', ''x''] \<noteq> None" "inBound 8 (the (map_un [''a'', ''x'']))"
    "childrenKeys (the (map_un [''a'', ''x''])) = []" "childrenKeys (the (map_un [''b''])) = []"
    by (simp_all add: inBound_def map_un_def)
  from v f g ib v2 f2 g2 x2 show ?thesis by simp
qed


text \<open>
  The trees a sorted \<open>stringify\<close> leaves of the tree of \<^verbatim>\<open>{"b":1,"a":2}\<close>: when the sort has
  reordered the stored keys the tree is \<open>treeOk\<close>, and when it has not the keys are no
  longer in the order of the spans.
\<close>

lemma treeOk_after_sorted_stringify:
  "treeOk 2 (nodeMap (snd (projr (stringify StoredArray 2 optsAsc tree_ba))))
     (the (root (snd (projr (stringify StoredArray 2 optsAsc tree_ba))))) \<and>
   \<not> treeOk 2 (nodeMap (snd (projr (stringify FreshArray 2 optsAsc tree_ba))))
     (the (root (snd (projr (stringify FreshArray 2 optsAsc tree_ba)))))"
proof -
  have "treeOk 2 (nodeMap (snd (projr (stringify StoredArray 2 optsAsc tree_ba))))
     (the (root (snd (projr (stringify StoredArray 2 optsAsc tree_ba)))))"
    by code_simp
  moreover have "\<not> treeOk 2 (nodeMap (snd (projr (stringify FreshArray 2 optsAsc tree_ba))))
     (the (root (snd (projr (stringify FreshArray 2 optsAsc tree_ba)))))"
    by code_simp
  ultimately show ?thesis by blast
qed

section \<open>The patch engine\<close>












lemma isNest_sameButLayout: "sameButLayout n n' \<Longrightarrow> isNest nest n' = isNest nest n"
  by (cases nest) (simp_all add: isNest_def sameButLayout_def)





lemma reaches_trans: "reaches m a b \<Longrightarrow> reaches m b c \<Longrightarrow> reaches m a c"
  by (induction rule: reaches.induct) (auto intro: reaches.intros)

lemma sameSkel_assign: "(\<And>n. sameButLayout n (f n)) \<Longrightarrow> sameSkel m (assign m r f)"
  unfolding sameSkel_def
  by (auto simp: assign_apply sameButLayout_def option.rel_map intro!: option.rel_refl)

lemma sameSkel_sortStored: "sameSkel m (sortStored ka opts m r)"
  by (cases ka) (auto simp: sortStored_def sameSkel_refl sameButLayout_sorted intro!: sameSkel_assign)

lemma sameSkel_first_writes:
  "sameSkel m (sortStored ka opts (if pure opts then m
                  else assign m r (\<lambda>n. n\<lparr>boundOffset := boff, offset := off\<rparr>)) r)"
proof -
  have "sameSkel m (if pure opts then m
                  else assign m r (\<lambda>n. n\<lparr>boundOffset := boff, offset := off\<rparr>))"
    by (auto simp: sameSkel_refl sameButLayout_def intro!: sameSkel_assign)
  then show ?thesis by (rule sameSkel_trans[OF _ sameSkel_sortStored])
qed

lemma fixOffset_sameSkel:
  "fixOffset ka fuel opts nest (m, acc, es) r = Inr (m', acc', es') \<Longrightarrow> sameSkel m m'"
proof (induction fuel arbitrary: m acc es r m' acc' es')
  case 0
  then show ?case by simp
next
  case (Suc k)
  from Suc.prems obtain n where n: "m r = Some n" by (auto split: option.splits)
  show ?case
  proof (cases "isNest nest n")
    case True
    with Suc.prems n obtain c where
      "stringifyNode ka k opts m r 0 (offset n + acc) (boundOffset n + acc) = Inr (c, m')"
      by (auto split: sum.splits)
    from wrote_sameSkel[OF stringifyNode_wrote[OF this]] show ?thesis .
  next
    case False
    define m1 where "m1 = assign m r (\<lambda>n. n\<lparr>offset := offset n + acc, boundOffset := boundOffset n + acc\<rparr>)"
    from Suc.prems n False obtain m2 where
      loop: "fixChildren (fixOffset ka k opts nest) n (getChildrenKeys n) (m1, acc, es) = Inr (m2, acc', es')"
      and m': "m' = assign m2 r (\<lambda>n. n\<lparr>nlength := nlength n + (acc' - acc),
                                      boundLength := boundLength n + (acc' - acc)\<rparr>)"
      by (auto simp: Let_def m1_def split: sum.splits)
    have a: "sameSkel m m1" unfolding m1_def by (rule sameSkel_assign) (simp add: sameButLayout_def)
    have "sameSkel m (fst (m2, acc', es'))"
    proof (rule fixChildren_preserves[where P = "\<lambda>st. sameSkel m (fst st)", OF _ loop])
      fix st x st'
      assume "fixOffset ka k opts nest st x = Inr st'" "sameSkel m (fst st)"
      with Suc.IH[of "fst st" "fst (snd st)" "snd (snd st)" x "fst st'" "fst (snd st')" "snd (snd st')"]
      show "sameSkel m (fst st')" by (auto intro: sameSkel_trans)
    qed (use a in simp)
    moreover have "sameSkel m2 m'" unfolding m' by (rule sameSkel_assign) (simp add: sameButLayout_def)
    ultimately show ?thesis by (auto intro: sameSkel_trans)
  qed
qed




















lemma closedTree_sameSkel: "closedTree k m r \<Longrightarrow> sameSkel m m' \<Longrightarrow> closedTree k m' r"
proof (induction k arbitrary: r)
  case 0
  then show ?case by simp
next
  case (Suc k)
  from Suc.prems(1) obtain n where n: "m r = Some n"
    and ch: "list_all (\<lambda>key. closedTree k m (getChildId n key)) (getChildrenKeys n)"
    by (auto split: option.splits)
  from sameSkel_Some[OF Suc.prems(2) n] obtain n' where n': "m' r = Some n'" "sameButLayout n n'"
    by blast
  from ch Suc.IH[OF _ Suc.prems(2)] sameButLayout_fields[OF n'(2)] n'(1) show ?case
    by (simp add: list_all_iff)
qed

lemma isOk_Inr: "isOk x \<longleftrightarrow> (\<exists>v. x = Inr v)"
  by (cases x) (simp_all add: isOk_def)

lemma stringifyChildren_total:
  assumes rec: "\<And>ma c l o' b. closedTree k ma c \<Longrightarrow>
                  \<exists>s mb. stringifyNode ka k opts ma c l o' b = Inr (s, mb)"
  shows "(\<forall>key \<in> set ks. closedTree k ma (getChildId nd key)) \<Longrightarrow>
         \<exists>s mb. stringifyChildren (stringifyNode ka k opts) opts nd lvl off ks s0 ma = Inr (s, mb)"
proof (induction ks arbitrary: s0 ma)
  case Nil
  then show ?case by simp
next
  case (Cons key rest)
  let ?s1 = "if format opts then s0 @ newline @ genTabs (effectiveTabWidth opts) (lvl + 1) else s0"
  let ?s2 = "if ntype nd = TObject
             then ?s1 @ dquote @ key @ dquote @ '':'' @ (if format opts then '' '' else [])
             else ?s1"
  from Cons.prems have "closedTree k ma (getChildId nd key)" by simp
  from rec[OF this] obtain cs mb where
    call: "stringifyNode ka k opts ma (getChildId nd key) (lvl + 1) (off + int (length ?s2))
             (off + int (length ?s1)) = Inr (cs, mb)" by blast
  have sk: "sameSkel ma mb" by (rule wrote_sameSkel[OF stringifyNode_wrote[OF call]])
  from Cons.prems closedTree_sameSkel[OF _ sk]
  have "\<forall>key \<in> set rest. closedTree k mb (getChildId nd key)" by simp
  from Cons.IH[OF this] call show ?case by (simp add: Let_def)
qed

lemma stringifyNode_total:
  "closedTree fuel m r \<Longrightarrow> \<exists>s m'. stringifyNode ka fuel opts m r lvl off boff = Inr (s, m')"
proof (induction fuel arbitrary: m r lvl off boff)
  case 0
  then show ?case by simp
next
  case (Suc k)
  from Suc.prems obtain n where n: "m r = Some n"
    and ch: "\<forall>key \<in> set (getChildrenKeys n). closedTree k m (getChildId n key)"
    by (auto simp: list_all_iff split: option.splits)
  show ?case
  proof (cases "isIterable n")
    case False
    with n show ?thesis by (simp add: Let_def)
  next
    case True
    define m1 where "m1 = sortStored ka opts (if pure opts then m
                       else assign m r (\<lambda>n. n\<lparr>boundOffset := boff, offset := off\<rparr>)) r"
    have sk: "sameSkel m m1"
      unfolding m1_def by (rule sameSkel_first_writes)
    from ch closedTree_sameSkel[OF _ sk]
    have "\<forall>key \<in> set (emittedKeys opts n). closedTree k m1 (getChildId n key)"
      by (simp add: emittedKeys_set getChildrenKeys_def)
    from stringifyChildren_total[where k = k and opts = opts, OF Suc.IH this]
    obtain s2 m2 where "stringifyChildren (stringifyNode ka k opts) opts n lvl off
               (emittedKeys opts n) (if ntype n = TObject then ''{'' else ''['') m1 = Inr (s2, m2)"
      by blast
    with n True show ?thesis by (simp add: Let_def m1_def)
  qed
qed










section \<open>The offset invariant after a pass\<close>

lemma keepsInv_refl: "keepsInv m m"
  by (simp add: keepsInv_def)

lemma keepsInv_trans: "keepsInv a b \<Longrightarrow> keepsInv b c \<Longrightarrow> keepsInv a c"
  unfolding keepsInv_def by blast

lemma invOrSame_keepsInv: "invOrSame m m' \<Longrightarrow> keepsInv m m'"
  unfolding invOrSame_def keepsInv_def by metis

lemma invOrSame_allLe: "invOrSame m m' \<Longrightarrow> allLe m \<Longrightarrow> allLe m'"
  unfolding invOrSame_def allLe_def spanInv_def by (metis option.inject)

lemma keepsInv_assign:
  "(\<And>n. spanInv n \<Longrightarrow> spanInv (f n)) \<Longrightarrow> keepsInv m (assign m ref f)"
  unfolding keepsInv_def by (auto simp: assign_apply)

lemma allLe_assign:
  "allLe m \<Longrightarrow> (\<And>n. boundOffset n \<le> offset n \<Longrightarrow> boundOffset (f n) \<le> offset (f n)) \<Longrightarrow>
   allLe (assign m ref f)"
  unfolding allLe_def by (auto simp: assign_apply)

lemma restringified_sameSkel:
  assumes "restringified nest m r p" and "sameSkel m m'"
  shows "restringified nest m' r p"
  using assms
proof (induction rule: restringified.induct)
  case (restr_here r n)
  from sameSkel_Some[OF restr_here.prems restr_here.hyps(1)] obtain n' where
    n': "m' r = Some n'" "sameButLayout n n'" by blast
  with restr_here.hyps(2) isNest_sameButLayout[OF n'(2), of nest] show ?case
    by (auto intro: restringified.restr_here)
next
  case (restr_down r n key p)
  from sameSkel_Some[OF restr_down.prems restr_down.hyps(1)] obtain n' where
    n': "m' r = Some n'" "sameButLayout n n'" by blast
  from sameButLayout_fields[OF n'(2), of key] restr_down.hyps restr_down.IH[OF restr_down.prems]
    isNest_sameButLayout[OF n'(2), of nest]
  show ?case
    by (intro restringified.restr_down[where r = r and n = n' and key = key and p = p])
       (auto simp: n')
qed

lemma fixOffset_keeps:
  "fixOffset ka fuel opts nest (m, acc, es) r = Inr (m', acc', es') \<Longrightarrow> \<not> pure opts \<Longrightarrow> allLe m \<Longrightarrow>
   allLe m' \<and> keepsInv m m'"
proof (induction fuel arbitrary: m acc es r m' acc' es')
  case 0
  then show ?case by simp
next
  case (Suc fuel)
  from Suc.prems(1) obtain nd where nd: "m r = Some nd"
    by (auto split: option.splits)
  with Suc.prems(3) have le: "boundOffset nd \<le> offset nd" by (simp add: allLe_def)
  show ?case
  proof (cases "isNest nest nd")
    case True
    with Suc.prems(1) nd obtain c where
      sn: "stringifyNode ka fuel opts m r 0 (offset nd + acc) (boundOffset nd + acc) = Inr (c, m')"
      by (auto split: sum.splits)
    from le have "boundOffset nd + acc \<le> offset nd + acc" by simp
    from stringifyNode_invOrSame[OF sn Suc.prems(2) this] have "invOrSame m m'" by blast
    with Suc.prems(3) show ?thesis
      by (blast intro: invOrSame_allLe invOrSame_keepsInv)
  next
    case False
    define m1 where "m1 = assign m r
                           (\<lambda>n. n\<lparr>offset := offset n + acc, boundOffset := boundOffset n + acc\<rparr>)"
    from Suc.prems(1) nd False obtain m2 where
      loop: "fixChildren (fixOffset ka fuel opts nest) nd (getChildrenKeys nd) (m1, acc, es)
               = Inr (m2, acc', es')"
      and m': "m' = assign m2 r
                              (\<lambda>n. n\<lparr>nlength := nlength n + (acc' - acc),
                                      boundLength := boundLength n + (acc' - acc)\<rparr>)"
      by (auto simp: Let_def m1_def split: sum.splits)
    have a: "allLe m1 \<and> keepsInv m m1"
      unfolding m1_def using Suc.prems(3)
      by (auto intro!: allLe_assign keepsInv_assign simp: spanInv_def)
    have "allLe (fst (m2, acc', es')) \<and> keepsInv m (fst (m2, acc', es'))"
    proof (rule fixChildren_preserves[where P = "\<lambda>st. allLe (fst st) \<and> keepsInv m (fst st)", OF _ loop])
      fix st x st'
      assume "fixOffset ka fuel opts nest st x = Inr st'" "allLe (fst st) \<and> keepsInv m (fst st)"
      with Suc.IH[of "fst st" "fst (snd st)" "snd (snd st)" x "fst st'" "fst (snd st')" "snd (snd st')"]
        Suc.prems(2)
      show "allLe (fst st') \<and> keepsInv m (fst st')" by (auto intro: keepsInv_trans)
    qed (use a in simp)
    then have b: "allLe m2" "keepsInv m m2" by simp_all
    have "allLe m'" unfolding m' by (rule allLe_assign[OF b(1)]) simp
    moreover have "keepsInv m2 m'" unfolding m' by (rule keepsInv_assign) (simp add: spanInv_def)
    ultimately show ?thesis using b(2) by (blast intro: keepsInv_trans)
  qed
qed

lemma fixChildren_restringified:
  assumes recKeep: "\<And>st c st'. rec st c = Inr st' \<Longrightarrow> allLe (fst st) \<Longrightarrow>
                      allLe (fst st') \<and> keepsInv (fst st) (fst st') \<and> sameSkel (fst st) (fst st')"
      and recEst: "\<And>st c st'. rec st c = Inr st' \<Longrightarrow> allLe (fst st) \<Longrightarrow>
                      restringified nest (fst st) c p \<Longrightarrow> visits (fst st) p x \<Longrightarrow>
                      \<exists>n'. fst st' x = Some n' \<and> spanInv n'"
  shows "fixChildren rec nd ks st = Inr st2 \<Longrightarrow> key \<in> set ks \<Longrightarrow> allLe (fst st) \<Longrightarrow>
         restringified nest (fst st) (getChildId nd key) p \<Longrightarrow> visits (fst st) p x \<Longrightarrow>
         \<exists>n'. fst st2 x = Some n' \<and> spanInv n'"
proof (induction ks arbitrary: st)
  case Nil
  then show ?case by simp
next
  case (Cons k rest)
  from Cons.prems(1) obtain st1 where
    call: "rec st (getChildId nd k) = Inr st1" and rest: "fixChildren rec nd rest st1 = Inr st2"
    by (auto split: sum.splits)
  from recKeep[OF call Cons.prems(3)] have k1: "allLe (fst st1)" "keepsInv (fst st) (fst st1)"
    "sameSkel (fst st) (fst st1)" by blast+
  show ?case
  proof (cases "key \<in> set rest")
    case True
    from Cons.IH[OF rest True k1(1) restringified_sameSkel[OF Cons.prems(4) k1(3)]
        visits_sameSkel[OF Cons.prems(5) k1(3)]]
    show ?thesis .
  next
    case False
    with Cons.prems(2) have "key = k" by simp
    with recEst[OF call Cons.prems(3)] Cons.prems(4,5) obtain n1 where
      n1: "fst st1 x = Some n1" "spanInv n1" by blast
    have "allLe (fst st2) \<and> keepsInv (fst st1) (fst st2)"
    proof (rule fixChildren_preserves[where P = "\<lambda>s. allLe (fst s) \<and> keepsInv (fst st1) (fst s)", OF _ rest])
      fix s c s'
      assume "rec s c = Inr s'" "allLe (fst s) \<and> keepsInv (fst st1) (fst s)"
      with recKeep[of s c s'] show "allLe (fst s') \<and> keepsInv (fst st1) (fst s')"
        by (auto intro: keepsInv_trans)
    qed (use k1(1) in \<open>simp add: keepsInv_refl\<close>)
    with n1 show ?thesis unfolding keepsInv_def by blast
  qed
qed

lemma fixOffset_restringified:
  "fixOffset ka fuel opts nest (m, acc, es) r = Inr (m', acc', es') \<Longrightarrow> \<not> pure opts \<Longrightarrow> allLe m \<Longrightarrow>
   restringified nest m r p \<Longrightarrow> visits m p x \<Longrightarrow> \<exists>n'. m' x = Some n' \<and> spanInv n'"
proof (induction fuel arbitrary: m acc es r m' acc' es')
  case 0
  then show ?case by simp
next
  case (Suc fuel)
  from Suc.prems(1) obtain nd where nd: "m r = Some nd"
    by (auto split: option.splits)
  with Suc.prems(3) have le: "boundOffset nd \<le> offset nd" by (simp add: allLe_def)
  from Suc.prems(4) show ?case
  proof (cases rule: restringified.cases)
    case (restr_here n)
    with nd have nest: "isNest nest nd" and rp: "p = r" by simp_all
    with Suc.prems(1) nd obtain c where
      sn: "stringifyNode ka fuel opts m r 0 (offset nd + acc) (boundOffset nd + acc) = Inr (c, m')"
      by (auto split: sum.splits)
    from le have "boundOffset nd + acc \<le> offset nd + acc" by simp
    from stringifyNode_visits_inv[OF sn Suc.prems(2) this] Suc.prems(5) rp show ?thesis by simp
  next
    case (restr_down n key)
    with nd have nn: "\<not> isNest nest nd" and key: "key \<in> set (getChildrenKeys nd)"
      and rs: "restringified nest m (getChildId nd key) p" by simp_all
    define m1 where "m1 = assign m r
                           (\<lambda>n. n\<lparr>offset := offset n + acc, boundOffset := boundOffset n + acc\<rparr>)"
    from Suc.prems(1) nd nn obtain m2 where
      loop: "fixChildren (fixOffset ka fuel opts nest) nd (getChildrenKeys nd) (m1, acc, es)
               = Inr (m2, acc', es')"
      and m': "m' = assign m2 r
                              (\<lambda>n. n\<lparr>nlength := nlength n + (acc' - acc),
                                      boundLength := boundLength n + (acc' - acc)\<rparr>)"
      by (auto simp: Let_def m1_def split: sum.splits)
    have sk: "sameSkel m m1" unfolding m1_def by (rule sameSkel_assign) (simp add: sameButLayout_def)
    have le1: "allLe m1" unfolding m1_def by (rule allLe_assign[OF Suc.prems(3)]) simp
    have "\<exists>n'. fst (m2, acc', es') x = Some n' \<and> spanInv n'"
    proof (rule fixChildren_restringified[where rec = "fixOffset ka fuel opts nest" and nest = nest
          and p = p and x = x, OF _ _ loop key])
      fix st c st'
      assume call: "fixOffset ka fuel opts nest st c = Inr st'" and l: "allLe (fst st)"
      obtain a b e where st: "st = (a, b, e)" by (cases st) auto
      obtain a' b' e' where st': "st' = (a', b', e')" by (cases st') auto
      from fixOffset_keeps[OF call[unfolded st st'] Suc.prems(2)] l
        fixOffset_sameSkel[OF call[unfolded st st']]
      show "allLe (fst st') \<and> keepsInv (fst st) (fst st') \<and> sameSkel (fst st) (fst st')"
        by (simp add: st st')
      assume "restringified nest (fst st) c p" "visits (fst st) p x"
      with Suc.IH[OF call[unfolded st st'] Suc.prems(2)] l
      show "\<exists>n'. fst st' x = Some n' \<and> spanInv n'" by (simp add: st st')
    next
      show "allLe (fst (m1, acc, es))" using le1 by simp
      show "restringified nest (fst (m1, acc, es)) (getChildId nd key) p"
        using restringified_sameSkel[OF rs sk] by simp
      show "visits (fst (m1, acc, es)) p x"
        using visits_sameSkel[OF Suc.prems(5) sk] by simp
    qed
    then obtain n2 where "m2 x = Some n2" "spanInv n2" by auto
    then show ?thesis
      by (auto simp: m' assign_apply spanInv_def)
  qed
qed

lemma visits_p1: "visits map_patch_stale [''p''] [''p'', ''1'']"
proof -
  have p: "map_patch_stale [''p''] = Some \<lparr>nid = [''p''], ntype = TArray, rawValue = None,
               childrenKeys = [''0'', ''1''],
               offset = 5, nlength = 3, boundOffset = 1, boundLength = 7\<rparr>"
    by (simp add: map_patch_stale_def map_patch_def)
  show ?thesis
    by (rule visits_child[where m = map_patch_stale and ref = "[''p'']" and key = "''1''"
          and r = "[''p'', ''1'']", OF p])
       (simp_all add: isIterable_def getChildrenKeys_def getChildId_def visits_self)
qed

lemma restringified_p:
  "restringified (nestNodeMap tree_patch_stale) map_patch_stale [] [''p'']"
proof -
  have r: "map_patch_stale [] = Some \<lparr>nid = [], ntype = TObject, rawValue = None,
               childrenKeys = [''p'', ''z''],
               offset = 0, nlength = 15, boundOffset = 0, boundLength = 15\<rparr>"
    by (simp add: map_patch_stale_def map_patch_def)
  have p: "map_patch_stale [''p''] = Some \<lparr>nid = [''p''], ntype = TArray, rawValue = None,
               childrenKeys = [''0'', ''1''],
               offset = 5, nlength = 3, boundOffset = 1, boundLength = 7\<rparr>"
    by (simp add: map_patch_stale_def map_patch_def)
  have "restringified (nestNodeMap tree_patch_stale) map_patch_stale [''p''] [''p'']"
    by (rule restr_here[where m = map_patch_stale and r = "[''p'']", OF p])
       (simp add: isNest_def tree_patch_stale_def tree_patch_def)
  then show ?thesis
    by (intro restr_down[where m = map_patch_stale and r = "[]" and key = "''p''", OF r])
       (simp_all add: isNest_def tree_patch_stale_def tree_patch_def getChildrenKeys_def getChildId_def)
qed

lemma allLe_patch_stale: "allLe map_patch_stale"
  by (auto simp: allLe_def map_patch_stale_def map_patch_def split: if_splits)

lemma allInv_patch: "allInv map_patch"
  by (auto simp: allInv_def map_patch_def spanInv_def split: if_splits)

text \<open>
  C2, as the code has it. \<open>spanInv\<close> is the offset invariant. After a \<open>stringifyNode\<close>
  that is not pure, called with a bound offset that is at most the offset, every node the
  call visits satisfies it, and after a \<open>stringify\<close> that is not pure every node visited from
  the root does. After a \<open>stringifyNestNodes\<close> that is not pure, on a tree whose nodes all
  have a bound offset that is at most their offset, every node below a pending node that the
  pass hands to \<open>stringifyNode\<close> satisfies it, and every node that satisfied it before the
  pass still does; and with any options, when every node of the map satisfies it before the
  pass, every node satisfies it after. \<open>stringifyNode\<close> and \<open>stringify\<close> return on a tree in
  which every child key resolves and that is no deeper than the fuel.
\<close>

theorem offset_invariant_after_pass:
  "(stringifyNode ka fuel opts m ref lvl off boff = Inr (s, m') \<and> \<not> pure opts \<and> boff \<le> off \<and>
      visits m ref x \<longrightarrow> (\<exists>n'. m' x = Some n' \<and> spanInv n')) \<and>
   (stringify ka fuel opts t = Inr (s, t') \<and> \<not> pure opts \<and> visits (nodeMap t) rootMarker x \<longrightarrow>
      (\<exists>n'. nodeMap t' x = Some n' \<and> spanInv n')) \<and>
   (stringifyNestNodes ka fuel opts t = Inr t'' \<and> \<not> pure opts \<and> allLe (nodeMap t) \<longrightarrow>
      (restringified (nestNodeMap t) (nodeMap t) rootMarker p \<and> visits (nodeMap t) p x \<longrightarrow>
         (\<exists>n'. nodeMap t'' x = Some n' \<and> spanInv n')) \<and>
      (nodeMap t x = Some n \<and> spanInv n \<longrightarrow> (\<exists>n'. nodeMap t'' x = Some n' \<and> spanInv n'))) \<and>
   (stringifyNestNodes ka fuel opts t = Inr t'' \<and> allInv (nodeMap t) \<longrightarrow> allInv (nodeMap t'')) \<and>
   (closedTree fuel m ref \<longrightarrow> (\<exists>s1 m1. stringifyNode ka fuel opts m ref lvl off boff = Inr (s1, m1))) \<and>
   (closedTree fuel (nodeMap t) rootMarker \<longrightarrow> (\<exists>s1 t1. stringify ka fuel opts t = Inr (s1, t1)))"
proof (intro conjI impI)
  assume "stringifyNode ka fuel opts m ref lvl off boff = Inr (s, m') \<and> \<not> pure opts \<and> boff \<le> off \<and>
      visits m ref x"
  then show "\<exists>n'. m' x = Some n' \<and> spanInv n'"
    using stringifyNode_visits_inv by blast
next
  assume a: "stringify ka fuel opts t = Inr (s, t') \<and> \<not> pure opts \<and> visits (nodeMap t) rootMarker x"
  then obtain m1 where
    sn: "stringifyNode ka fuel opts (nodeMap t) [] 0 0 0 = Inr (s, m1)"
    and t': "t' = t\<lparr>nodeMap := assign m1 [] (\<lambda>n. n\<lparr>nlength := int (length s)\<rparr>), treeText := s\<rparr>"
    by (auto simp: stringify_def rootMarker_def split: sum.splits)
  from a have np: "\<not> pure opts" and vis: "visits (nodeMap t) [] x" by (simp_all add: rootMarker_def)
  from stringifyNode_visits_inv[OF sn np _ vis] obtain n' where n': "m1 x = Some n'" "spanInv n'"
    by auto
  from stringifyNode_root_spans[OF sn np] obtain r' where
    "m1 [] = Some r'" "nlength r' = int (length s)" by blast
  then have "assign m1 [] (\<lambda>n. n\<lparr>nlength := int (length s)\<rparr>) = m1"
    by (auto simp: assign_apply fun_eq_iff)
  with n' show "\<exists>n'. nodeMap t' x = Some n' \<and> spanInv n'" by (simp add: t')
next
  assume a: "stringifyNestNodes ka fuel opts t = Inr t'' \<and> \<not> pure opts \<and> allLe (nodeMap t)"
  then obtain m2 acc es where
    fo: "fixOffset ka fuel opts (nestNodeMap t) (nodeMap t, 0, []) rootMarker = Inr (m2, acc, es)"
    and t'': "nodeMap t'' = m2"
    by (auto simp: stringifyNestNodes_def split: sum.splits)
  from a have np: "\<not> pure opts" and le: "allLe (nodeMap t)" by simp_all
  {
    assume "restringified (nestNodeMap t) (nodeMap t) rootMarker p \<and> visits (nodeMap t) p x"
    then have "restringified (nestNodeMap t) (nodeMap t) rootMarker p" "visits (nodeMap t) p x"
      by simp_all
    from fixOffset_restringified[OF fo np le this] t''
    show "\<exists>n'. nodeMap t'' x = Some n' \<and> spanInv n'" by simp
  }
  {
    assume "nodeMap t x = Some n \<and> spanInv n"
    with fixOffset_keeps[OF fo np le] t''
    show "\<exists>n'. nodeMap t'' x = Some n' \<and> spanInv n'" unfolding keepsInv_def by blast
  }
next
  assume a: "stringifyNestNodes ka fuel opts t = Inr t'' \<and> allInv (nodeMap t)"
  then obtain m2 acc es where
    "fixOffset ka fuel opts (nestNodeMap t) (nodeMap t, 0, []) rootMarker = Inr (m2, acc, es)"
    and "nodeMap t'' = m2"
    by (auto simp: stringifyNestNodes_def split: sum.splits)
  with fixOffset_allInv a show "allInv (nodeMap t'')" by blast
next
  assume "closedTree fuel m ref"
  then show "\<exists>s1 m1. stringifyNode ka fuel opts m ref lvl off boff = Inr (s1, m1)"
    by (rule stringifyNode_total)
next
  assume "closedTree fuel (nodeMap t) rootMarker"
  from stringifyNode_total[OF this, where ka = ka and opts = opts and lvl = 0 and off = 0 and boff = 0]
  show "\<exists>s1 t1. stringify ka fuel opts t = Inr (s1, t1)"
    by (auto simp: stringify_def)
qed

theorem offset_invariant_after_pass_witness:
  "closedTree 2 map_a1 [] \<and>
   (\<exists>s m'. stringifyNode StoredArray 2 optsPlain map_a1 [] 0 0 0 = Inr (s, m') \<and>
       visits map_a1 [] [''a''] \<and> (\<exists>n'. m' [''a''] = Some n' \<and> spanInv n')) \<and>
   (\<exists>s t'. stringify StoredArray 2 optsPlain tree_a1 = Inr (s, t') \<and>
       (\<exists>n'. nodeMap t' [''a''] = Some n' \<and> spanInv n')) \<and>
   allLe (nodeMap tree_patch_stale) \<and>
   restringified (nestNodeMap tree_patch_stale) (nodeMap tree_patch_stale) rootMarker [''p''] \<and>
   visits (nodeMap tree_patch_stale) [''p''] [''p'', ''1''] \<and>
   \<not> spanInv (the (nodeMap tree_patch_stale [''p'', ''1''])) \<and>
   spanInv (the (nodeMap tree_patch_stale [''z''])) \<and>
   (\<exists>t''. stringifyNestNodes StoredArray 4 optsPlain tree_patch_stale = Inr t'' \<and>
       (\<exists>n'. nodeMap t'' [''p'', ''1''] = Some n' \<and> spanInv n') \<and>
       (\<exists>n'. nodeMap t'' [''z''] = Some n' \<and> spanInv n')) \<and>
   allInv (nodeMap tree_patch) \<and>
   (\<exists>t''. stringifyNestNodes StoredArray 4 optsPlain tree_patch = Inr t'' \<and> allInv (nodeMap t''))"
proof -
  have np: "\<not> pure optsPlain" by (simp add: optsPlain_def)
  have nm: "nodeMap tree_a1 = map_a1" by (simp add: tree_a1_def)
  have nms: "nodeMap tree_patch_stale = map_patch_stale" by (simp add: tree_patch_stale_def)
  have nmp: "nodeMap tree_patch = map_patch" by (simp add: tree_patch_def)
  have ct: "closedTree 2 map_a1 []" by code_simp
  note T = offset_invariant_after_pass[where ka = StoredArray and fuel = 2 and opts = optsPlain
      and m = map_a1 and ref = "[]" and lvl = 0 and off = 0 and boff = 0 and t = tree_a1
      and x = "[''a'']"]
  from T ct obtain s m' where r1: "stringifyNode StoredArray 2 optsPlain map_a1 [] 0 0 0 = Inr (s, m')"
    by blast
  from T ct obtain s2 t' where r2: "stringify StoredArray 2 optsPlain tree_a1 = Inr (s2, t')"
    unfolding nm rootMarker_def by blast
  from offset_invariant_after_pass[where ka = StoredArray and fuel = 2 and opts = optsPlain
      and m = map_a1 and ref = "[]" and lvl = 0 and off = 0 and boff = 0 and s = s and m' = m'
      and x = "[''a'']"] r1 np visits_a1
  have c1: "\<exists>n'. m' [''a''] = Some n' \<and> spanInv n'" by simp
  from offset_invariant_after_pass[where ka = StoredArray and fuel = 2 and opts = optsPlain
      and s = s2 and x = "[''a'']" and t = tree_a1 and t' = t'] r2 np visits_a1
  have c2: "\<exists>n'. nodeMap t' [''a''] = Some n' \<and> spanInv n'" by (simp add: nm rootMarker_def)
  have "isOk (stringifyNestNodes StoredArray 4 optsPlain tree_patch_stale)" by code_simp
  then obtain u where r3: "stringifyNestNodes StoredArray 4 optsPlain tree_patch_stale = Inr u"
    by (cases "stringifyNestNodes StoredArray 4 optsPlain tree_patch_stale") (auto simp: isOk_def)
  have before: "\<not> spanInv (the (map_patch_stale [''p'', ''1'']))"
    "map_patch_stale [''z''] = Some \<lparr>nid = [''z''], ntype = TNumber, rawValue = Some ''2'',
               childrenKeys = [], offset = 13, nlength = 1, boundOffset = 9, boundLength = 5\<rparr>"
    by (simp_all add: map_patch_stale_def map_patch_def spanInv_def)
  from offset_invariant_after_pass[where ka = StoredArray and fuel = 4 and opts = optsPlain
      and t = tree_patch_stale and t'' = u and p = "[''p'']" and x = "[''p'', ''1'']"]
    r3 np allLe_patch_stale restringified_p visits_p1
  have c3: "\<exists>n'. nodeMap u [''p'', ''1''] = Some n' \<and> spanInv n'"
    by (simp add: nms rootMarker_def)
  from offset_invariant_after_pass[where ka = StoredArray and fuel = 4 and opts = optsPlain
      and t = tree_patch_stale and t'' = u and x = "[''z'']"
      and n = "\<lparr>nid = [''z''], ntype = TNumber, rawValue = Some ''2'',
               childrenKeys = [], offset = 13, nlength = 1, boundOffset = 9, boundLength = 5\<rparr>"]
    r3 np allLe_patch_stale before(2)
  have c4: "\<exists>n'. nodeMap u [''z''] = Some n' \<and> spanInv n'"
    by (simp add: nms spanInv_def)
  have "isOk (stringifyNestNodes StoredArray 4 optsPlain tree_patch)" by code_simp
  then obtain w where r4: "stringifyNestNodes StoredArray 4 optsPlain tree_patch = Inr w"
    by (cases "stringifyNestNodes StoredArray 4 optsPlain tree_patch") (auto simp: isOk_def)
  from offset_invariant_after_pass[where ka = StoredArray and fuel = 4 and opts = optsPlain
      and t = tree_patch and t'' = w] r4 allInv_patch
  have c5: "allInv (nodeMap w)" by (simp add: nmp)
  have zinv: "spanInv (the (map_patch_stale [''z'']))"
    by (simp add: before(2) spanInv_def)
  from ct r1 r2 r3 r4 c1 c2 c3 c4 c5 visits_a1 visits_p1 restringified_p allLe_patch_stale
    allInv_patch before(1) zinv
  show ?thesis by (simp add: nm nms nmp rootMarker_def)
qed

text \<open>
  C2 as stated, for any pass, fails. \<open>stringifyNode\<close> writes the offsets its caller gives
  it: called, not pure, with offset 0 and bound offset 5 on a leaf, it leaves the leaf with
  a bound offset above its offset. \<open>stringifyNestNodes\<close> moves the nodes that are not pending
  and recomputes nothing on them: on the tree that a pure \<open>stringify\<close> leaves of \<^verbatim>\<open>[ ]\<close>, whose
  root has length 2 and bound length 3, the root is the same after the pass. And with
  \<open>pure\<close> the pass writes no span below a pending node either: the new element of
  \<open>tree_patch_stale\<close> keeps length 2 and bound length 0.
\<close>

theorem offset_invariant_not_after_every_pass:
  "\<not> pure optsPlain \<and>
   isOk (stringifyNode StoredArray 1 optsPlain map_noraw [] 0 0 5) \<and>
   map_option offset (snd (projr (stringifyNode StoredArray 1 optsPlain map_noraw [] 0 0 5)) []) = Some 0 \<and>
   map_option boundOffset (snd (projr (stringifyNode StoredArray 1 optsPlain map_noraw [] 0 0 5)) [])
     = Some 5 \<and>
   \<not> spanInv (the (snd (projr (stringifyNode StoredArray 1 optsPlain map_noraw [] 0 0 5)) [])) \<and>
   isOk (stringify StoredArray 1 optsPure tree_blank) \<and>
   isOk (stringifyNestNodes StoredArray 1 optsPlain
           (snd (projr (stringify StoredArray 1 optsPure tree_blank)))) \<and>
   map_option nlength
     (nodeMap (projr (stringifyNestNodes StoredArray 1 optsPlain
                        (snd (projr (stringify StoredArray 1 optsPure tree_blank))))) []) = Some 2 \<and>
   map_option boundLength
     (nodeMap (projr (stringifyNestNodes StoredArray 1 optsPlain
                        (snd (projr (stringify StoredArray 1 optsPure tree_blank))))) []) = Some 3 \<and>
   map_option offset
     (nodeMap (projr (stringifyNestNodes StoredArray 1 optsPlain
                        (snd (projr (stringify StoredArray 1 optsPure tree_blank))))) []) = Some 0 \<and>
   map_option boundOffset
     (nodeMap (projr (stringifyNestNodes StoredArray 1 optsPlain
                        (snd (projr (stringify StoredArray 1 optsPure tree_blank))))) []) = Some 0 \<and>
   \<not> spanInv (the (nodeMap (projr (stringifyNestNodes StoredArray 1 optsPlain
                        (snd (projr (stringify StoredArray 1 optsPure tree_blank))))) [])) \<and>
   isOk (stringifyNestNodes StoredArray 4 optsPure tree_patch_stale) \<and>
   map_option nlength
     (nodeMap (projr (stringifyNestNodes StoredArray 4 optsPure tree_patch_stale)) [''p'', ''1''])
     = Some 2 \<and>
   map_option boundLength
     (nodeMap (projr (stringifyNestNodes StoredArray 4 optsPure tree_patch_stale)) [''p'', ''1''])
     = Some 0 \<and>
   map_option offset
     (nodeMap (projr (stringifyNestNodes StoredArray 4 optsPure tree_patch_stale)) [''p'', ''1''])
     = Some 0 \<and>
   map_option boundOffset
     (nodeMap (projr (stringifyNestNodes StoredArray 4 optsPure tree_patch_stale)) [''p'', ''1''])
     = Some 0 \<and>
   \<not> spanInv (the (nodeMap (projr (stringifyNestNodes StoredArray 4 optsPure tree_patch_stale))
                        [''p'', ''1'']))"
proof -
  have a: "\<not> pure optsPlain" by (simp add: optsPlain_def)
  have b: "isOk (stringifyNode StoredArray 1 optsPlain map_noraw [] 0 0 5)" by code_simp
  have c: "map_option offset (snd (projr (stringifyNode StoredArray 1 optsPlain map_noraw [] 0 0 5)) []) = Some 0"
    by code_simp
  have d: "map_option boundOffset (snd (projr (stringifyNode StoredArray 1 optsPlain map_noraw [] 0 0 5)) [])
     = Some 5"
    by code_simp
  have e: "isOk (stringify StoredArray 1 optsPure tree_blank)" by code_simp
  have f: "isOk (stringifyNestNodes StoredArray 1 optsPlain
           (snd (projr (stringify StoredArray 1 optsPure tree_blank))))" by code_simp
  have g: "map_option nlength
     (nodeMap (projr (stringifyNestNodes StoredArray 1 optsPlain
                        (snd (projr (stringify StoredArray 1 optsPure tree_blank))))) []) = Some 2"
    by code_simp
  have h: "map_option boundLength
     (nodeMap (projr (stringifyNestNodes StoredArray 1 optsPlain
                        (snd (projr (stringify StoredArray 1 optsPure tree_blank))))) []) = Some 3"
    by code_simp
  have i: "map_option offset
     (nodeMap (projr (stringifyNestNodes StoredArray 1 optsPlain
                        (snd (projr (stringify StoredArray 1 optsPure tree_blank))))) []) = Some 0"
    by code_simp
  have j: "map_option boundOffset
     (nodeMap (projr (stringifyNestNodes StoredArray 1 optsPlain
                        (snd (projr (stringify StoredArray 1 optsPure tree_blank))))) []) = Some 0"
    by code_simp
  have k: "isOk (stringifyNestNodes StoredArray 4 optsPure tree_patch_stale)" by code_simp
  have l: "map_option nlength
     (nodeMap (projr (stringifyNestNodes StoredArray 4 optsPure tree_patch_stale)) [''p'', ''1''])
     = Some 2" by code_simp
  have m: "map_option boundLength
     (nodeMap (projr (stringifyNestNodes StoredArray 4 optsPure tree_patch_stale)) [''p'', ''1''])
     = Some 0" by code_simp
  have n: "map_option offset
     (nodeMap (projr (stringifyNestNodes StoredArray 4 optsPure tree_patch_stale)) [''p'', ''1''])
     = Some 0" by code_simp
  have o: "map_option boundOffset
     (nodeMap (projr (stringifyNestNodes StoredArray 4 optsPure tree_patch_stale)) [''p'', ''1''])
     = Some 0" by code_simp
  have p: "\<not> spanInv (the (snd (projr (stringifyNode StoredArray 1 optsPlain map_noraw [] 0 0 5)) []))"
    by code_simp
  have q: "\<not> spanInv (the (nodeMap (projr (stringifyNestNodes StoredArray 1 optsPlain
                        (snd (projr (stringify StoredArray 1 optsPure tree_blank))))) []))"
    by code_simp
  have r: "\<not> spanInv (the (nodeMap (projr (stringifyNestNodes StoredArray 4 optsPure tree_patch_stale))
                        [''p'', ''1'']))"
    by code_simp
  from a b c d e f g h i j k l m n o p q r show ?thesis by blast
qed


end
